theory Spec2Isabelle
  imports Main
begin

section \<open>Run-time failures\<close>

text \<open>
  A Go panic is a value: an index out of range, a slice bound out of range, or an
  explicit \<^verbatim>\<open>panic(msg)\<close>.  A function that can panic returns \<open>panic + 'a\<close>.
\<close>

datatype panic = IndexOutOfRange | SliceBoundsOutOfRange | Panic string

text \<open>\<^verbatim>\<open>s[i]\<close> on a string or byte slice.\<close>

definition byteAt :: "string \<Rightarrow> nat \<Rightarrow> panic + char" where
  "byteAt s i = (if i < length s then Inr (s ! i) else Inl IndexOutOfRange)"

text \<open>\<^verbatim>\<open>b[i] = c\<close> on a byte slice.\<close>

definition setByte :: "string \<Rightarrow> nat \<Rightarrow> char \<Rightarrow> panic + string option" where
  "setByte b i c = (if i < length b then Inr (Some (b[i := c])) else Inl IndexOutOfRange)"

text \<open>\<^verbatim>\<open>s[:w]\<close> on a string or byte slice whose capacity is its length.\<close>

definition sliceTo :: "string \<Rightarrow> nat \<Rightarrow> panic + string" where
  "sliceTo s w = (if w \<le> length s then Inr (take w s) else Inl SliceBoundsOutOfRange)"

section \<open>path.go: CleanPath\<close>

text \<open>
  The buffer \<^verbatim>\<open>buf\<close> is \<open>None\<close> while it is nil and \<open>Some b\<close> once allocated.
  \<^verbatim>\<open>bufApp\<close> writes nothing while the input already holds the byte to be written;
  at the first difference it allocates \<^verbatim>\<open>len(s)\<close> zero bytes and copies \<^verbatim>\<open>s[:w]\<close>
  (the read \<^verbatim>\<open>s[w]\<close> before it has succeeded, so that the slice is in range).
\<close>

definition bufApp :: "string option \<Rightarrow> string \<Rightarrow> nat \<Rightarrow> char \<Rightarrow> panic + string option" where
  "bufApp buf s w c =
     (case buf of
        None \<Rightarrow>
          (case byteAt s w of
             Inl e \<Rightarrow> Inl e
           | Inr x \<Rightarrow>
               if x = c then Inr None
               else setByte (take w s @ replicate (length s - w) (CHR 0x00)) w c)
      | Some b \<Rightarrow> setByte b w c)"

text \<open>\<^verbatim>\<open>for w > 1 && src[w] != '/' { w-- }\<close>, with \<^verbatim>\<open>src\<close> the input or the buffer.\<close>

fun backtrack :: "string \<Rightarrow> nat \<Rightarrow> panic + nat" where
  "backtrack src w =
     (if w > 1 then
        (case byteAt src w of
           Inl e \<Rightarrow> Inl e
         | Inr c \<Rightarrow> if c \<noteq> CHR ''/'' then backtrack src (w - 1) else Inr w)
      else Inr w)"

declare backtrack.simps [simp del]

text \<open>The body of the \<^verbatim>\<open>..\<close> case after \<^verbatim>\<open>r += 3\<close>: the new write index.\<close>

definition dotdotElement :: "string \<Rightarrow> string option \<Rightarrow> nat \<Rightarrow> panic + nat" where
  "dotdotElement p buf w =
     (if w > 1 then
        (case buf of
           None \<Rightarrow> backtrack p (w - 1)
         | Some b \<Rightarrow> backtrack b (w - 1))
      else Inr w)"

text \<open>\<^verbatim>\<open>for r < n && p[r] != '/' { bufApp(&buf, p, w, p[r]); w++; r++ }\<close>\<close>

function copyElement :: "string \<Rightarrow> string option \<Rightarrow> nat \<Rightarrow> nat \<Rightarrow> panic + (string option \<times> nat \<times> nat)" where
  "copyElement p buf r w =
     (if r < length p \<and> p ! r \<noteq> CHR ''/'' then
        (case bufApp buf p w (p ! r) of
           Inl e \<Rightarrow> Inl e
         | Inr buf' \<Rightarrow> copyElement p buf' (r + 1) (w + 1))
      else Inr (buf, r, w))"
  by pat_completeness auto
termination
  by (relation "measure (\<lambda>(p, buf, r, w). length p - r)") auto

declare copyElement.simps [simp del]

text \<open>The default case: a real path element.\<close>

definition realElement :: "string \<Rightarrow> string option \<Rightarrow> nat \<Rightarrow> nat \<Rightarrow> panic + (string option \<times> nat \<times> nat)" where
  "realElement p buf r w =
     (if w > 1 then
        (case bufApp buf p w (CHR ''/'') of
           Inl e \<Rightarrow> Inl e
         | Inr buf' \<Rightarrow> copyElement p buf' r (w + 1))
      else copyElement p buf r w)"

text \<open>
  One iteration of \<^verbatim>\<open>for r < n { switch {...} }\<close>, entered with \<open>r < length p\<close>.
  The state is \<open>(buf, r, w, trailing)\<close>.  The cases are tried in the order of the source;
  \<^verbatim>\<open>&&\<close> and \<^verbatim>\<open>||\<close> evaluate their right operand only when needed, so \<^verbatim>\<open>p[r+1]\<close> is
  read only when \<^verbatim>\<open>p[r] == '.'\<close> and \<^verbatim>\<open>r+1 != n\<close>, and \<^verbatim>\<open>p[r+2]\<close> only when moreover
  \<^verbatim>\<open>p[r+1] == '.'\<close> and \<^verbatim>\<open>r+2 != n\<close>.
\<close>

type_synonym cleanState = "string option \<times> nat \<times> nat \<times> bool"

definition defaultCase :: "string \<Rightarrow> string option \<Rightarrow> nat \<Rightarrow> nat \<Rightarrow> bool \<Rightarrow> panic + cleanState" where
  "defaultCase p buf r w trailing =
     (case realElement p buf r w of
        Inl e \<Rightarrow> Inl e
      | Inr (buf', r', w') \<Rightarrow> Inr (buf', r', w', trailing))"

definition dotdotCase :: "string \<Rightarrow> string option \<Rightarrow> nat \<Rightarrow> nat \<Rightarrow> bool \<Rightarrow> panic + cleanState" where
  "dotdotCase p buf r w trailing =
     (case dotdotElement p buf w of
        Inl e \<Rightarrow> Inl e
      | Inr w' \<Rightarrow> Inr (buf, r + 3, w', trailing))"

definition loopBody :: "string \<Rightarrow> string option \<Rightarrow> nat \<Rightarrow> nat \<Rightarrow> bool \<Rightarrow> panic + cleanState" where
  "loopBody p buf r w trailing =
     (let n = length p in
      if p ! r = CHR ''/'' then Inr (buf, r + 1, w, trailing)
      else if p ! r = CHR ''.'' \<and> r + 1 = n then Inr (buf, r + 1, w, True)
      else if p ! r = CHR ''.'' then
        (case byteAt p (r + 1) of
           Inl e \<Rightarrow> Inl e
         | Inr c1 \<Rightarrow>
             if c1 = CHR ''/'' then Inr (buf, r + 2, w, trailing)
             else if c1 = CHR ''.'' then
               (if r + 2 = n then dotdotCase p buf r w trailing
                else
                  (case byteAt p (r + 2) of
                     Inl e \<Rightarrow> Inl e
                   | Inr c2 \<Rightarrow>
                       if c2 = CHR ''/'' then dotdotCase p buf r w trailing
                       else defaultCase p buf r w trailing))
             else defaultCase p buf r w trailing)
      else defaultCase p buf r w trailing)"

lemma copyElement_r: "copyElement p buf r w = Inr (buf', r', w') \<Longrightarrow> r \<le> r'"
proof (induction p buf r w rule: copyElement.induct)
  case (1 p buf r w)
  show ?case
  proof (cases "r < length p \<and> p ! r \<noteq> CHR ''/''")
    case True
    with "1.prems" obtain b where b: "bufApp buf p w (p ! r) = Inr b"
      and c: "copyElement p b (r + 1) (w + 1) = Inr (buf', r', w')"
      by (subst (asm) copyElement.simps) (auto split: sum.splits)
    from "1.IH" [OF True b c] show ?thesis by simp
  next
    case False
    with "1.prems" show ?thesis
      by (subst (asm) copyElement.simps) auto
  qed
qed

lemma copyElement_r_less:
  assumes "copyElement p buf r w = Inr (buf', r', w')" "r < length p" "p ! r \<noteq> CHR ''/''"
  shows "r < r'"
proof -
  from assms obtain b where "copyElement p b (r + 1) (w + 1) = Inr (buf', r', w')"
    by (subst (asm) copyElement.simps) (auto split: sum.splits)
  from copyElement_r [OF this] show ?thesis by simp
qed

lemma realElement_r_less:
  assumes "realElement p buf r w = Inr (buf', r', w')" "r < length p" "p ! r \<noteq> CHR ''/''"
  shows "r < r'"
  using assms
  by (auto simp: realElement_def split: if_splits sum.splits dest: copyElement_r_less)

lemma loopBody_r_less:
  assumes "loopBody p buf r w trailing = Inr (buf', r', w', trailing')" "r < length p"
  shows "r < r'"
  using assms
  by (auto simp: loopBody_def Let_def defaultCase_def dotdotCase_def
      split: if_splits sum.splits prod.splits dest: realElement_r_less)

text \<open>\<^verbatim>\<open>for r < n { ... }\<close>\<close>

function cleanLoop :: "string \<Rightarrow> string option \<Rightarrow> nat \<Rightarrow> nat \<Rightarrow> bool \<Rightarrow> panic + cleanState" where
  "cleanLoop p buf r w trailing =
     (if r < length p then
        (case loopBody p buf r w trailing of
           Inl e \<Rightarrow> Inl e
         | Inr (buf', r', w', trailing') \<Rightarrow> cleanLoop p buf' r' w' trailing')
      else Inr (buf, r, w, trailing))"
  by pat_completeness auto
termination
  by (relation "measure (\<lambda>(p, buf, r, w, trailing). length p - r)")
    (auto dest: loopBody_r_less)

declare cleanLoop.simps [simp del]

text \<open>The re-appended trailing slash after the loop.\<close>

definition appendTrailing :: "string \<Rightarrow> string option \<Rightarrow> nat \<Rightarrow> bool \<Rightarrow> panic + (string option \<times> nat)" where
  "appendTrailing p buf w trailing =
     (if trailing \<and> w > 1 then
        (case bufApp buf p w (CHR ''/'') of
           Inl e \<Rightarrow> Inl e
         | Inr buf' \<Rightarrow> Inr (buf', w + 1))
      else Inr (buf, w))"

definition CleanPath :: "string \<Rightarrow> panic + string" where
  "CleanPath p =
     (if p = [] then Inr ''/''
      else
        let n = length p;
            (buf, r) = (if p ! 0 \<noteq> CHR ''/''
                        then (Some ((replicate (n + 1) (CHR 0x00))[0 := CHR ''/'']), 0)
                        else (None, 1));
            trailing = (n > 1 \<and> p ! (n - 1) = CHR ''/'')
        in case cleanLoop p buf r 1 trailing of
             Inl e \<Rightarrow> Inl e
           | Inr (buf1, r1, w1, trailing1) \<Rightarrow>
               (case appendTrailing p buf1 w1 trailing1 of
                  Inl e \<Rightarrow> Inl e
                | Inr (buf2, w2) \<Rightarrow>
                    (case buf2 of
                       None \<Rightarrow> sliceTo p w2
                     | Some b \<Rightarrow> sliceTo b w2)))"

section \<open>router.go: Params\<close>

record Param =
  Key :: string
  Value :: string

type_synonym Params = "Param list"

text \<open>
  \<^verbatim>\<open>for i := range ps { if ps[i].Key == name { return ps[i].Value } }; return ""\<close>:
  the loop visits the pairs from the first to the last.
\<close>

fun ByName :: "Params \<Rightarrow> string \<Rightarrow> string" where
  "ByName [] name = []"
| "ByName (p # ps) name = (if Key p = name then Value p else ByName ps name)"

section \<open>router.go: Router\<close>

text \<open>
  The route tree (\<^verbatim>\<open>node\<close>, \<^verbatim>\<open>addRoute\<close>, \<^verbatim>\<open>getValue\<close>) is not part of the sources at
  hand, so that the router is modelled over any type \<open>'n\<close> of trees: \<open>newNode\<close> is
  \<^verbatim>\<open>new(node)\<close>, \<open>addRoute\<close> returns the tree as it has left it and the panic it has
  raised, if any, and \<open>getValue\<close> returns the handler (\<open>None\<close> for nil), the parameters
  and the redirect flag, or a panic.  The map \<^verbatim>\<open>trees\<close> is \<open>None\<close> while it is nil.
  The handler fields of the router play no part in \<^verbatim>\<open>Handle\<close> and \<^verbatim>\<open>Lookup\<close> and are left
  out.
\<close>

record 'n Router =
  trees :: "(string \<rightharpoonup> 'n) option"
  RedirectTrailingSlash :: bool
  RedirectFixedPath :: bool
  HandleMethodNotAllowed :: bool
  HandleOPTIONS :: bool

definition New :: "'n Router" where
  "New = \<lparr>trees = None, RedirectTrailingSlash = True, RedirectFixedPath = True,
          HandleMethodNotAllowed = True, HandleOPTIONS = True\<rparr>"

text \<open>\<^verbatim>\<open>r.trees[method]\<close>: reading a nil map gives the zero value, as a missing key does.\<close>

definition treeOf :: "'n Router \<Rightarrow> string \<Rightarrow> 'n option" where
  "treeOf r method = (case trees r of None \<Rightarrow> None | Some m \<Rightarrow> m method)"

definition beginMessage :: "string \<Rightarrow> string" where
  "beginMessage path =
     ''path must begin with '' @ [CHR 0x27] @ ''/'' @ [CHR 0x27] @ '' in path '' @
     [CHR 0x27] @ path @ [CHR 0x27]"

text \<open>
  \<^verbatim>\<open>Handle\<close> returns the router as the call has left it and the panic that has ended the
  call, if any.  \<^verbatim>\<open>path[0]\<close> on the empty path is an index out of range.
\<close>

definition Handle ::
  "('n \<Rightarrow> string \<Rightarrow> 'h \<Rightarrow> 'n \<times> panic option) \<Rightarrow> 'n \<Rightarrow>
   'n Router \<Rightarrow> string \<Rightarrow> string \<Rightarrow> 'h \<Rightarrow> 'n Router \<times> panic option" where
  "Handle addRoute newNode r method path handle =
     (case byteAt path 0 of
        Inl e \<Rightarrow> (r, Some e)
      | Inr c \<Rightarrow>
          if c \<noteq> CHR ''/'' then (r, Some (Panic (beginMessage path)))
          else
            let m = (case trees r of None \<Rightarrow> Map.empty | Some m \<Rightarrow> m);
                root = (case m method of None \<Rightarrow> newNode | Some root \<Rightarrow> root);
                (root', e) = addRoute root path handle
            in (r\<lparr>trees := Some (m(method \<mapsto> root'))\<rparr>, e))"

definition GET ::
  "('n \<Rightarrow> string \<Rightarrow> 'h \<Rightarrow> 'n \<times> panic option) \<Rightarrow> 'n \<Rightarrow>
   'n Router \<Rightarrow> string \<Rightarrow> 'h \<Rightarrow> 'n Router \<times> panic option" where
  "GET addRoute newNode r path handle = Handle addRoute newNode r ''GET'' path handle"

definition HEAD ::
  "('n \<Rightarrow> string \<Rightarrow> 'h \<Rightarrow> 'n \<times> panic option) \<Rightarrow> 'n \<Rightarrow>
   'n Router \<Rightarrow> string \<Rightarrow> 'h \<Rightarrow> 'n Router \<times> panic option" where
  "HEAD addRoute newNode r path handle = Handle addRoute newNode r ''HEAD'' path handle"

definition OPTIONS ::
  "('n \<Rightarrow> string \<Rightarrow> 'h \<Rightarrow> 'n \<times> panic option) \<Rightarrow> 'n \<Rightarrow>
   'n Router \<Rightarrow> string \<Rightarrow> 'h \<Rightarrow> 'n Router \<times> panic option" where
  "OPTIONS addRoute newNode r path handle = Handle addRoute newNode r ''OPTIONS'' path handle"

definition POST ::
  "('n \<Rightarrow> string \<Rightarrow> 'h \<Rightarrow> 'n \<times> panic option) \<Rightarrow> 'n \<Rightarrow>
   'n Router \<Rightarrow> string \<Rightarrow> 'h \<Rightarrow> 'n Router \<times> panic option" where
  "POST addRoute newNode r path handle = Handle addRoute newNode r ''POST'' path handle"

definition PUT ::
  "('n \<Rightarrow> string \<Rightarrow> 'h \<Rightarrow> 'n \<times> panic option) \<Rightarrow> 'n \<Rightarrow>
   'n Router \<Rightarrow> string \<Rightarrow> 'h \<Rightarrow> 'n Router \<times> panic option" where
  "PUT addRoute newNode r path handle = Handle addRoute newNode r ''PUT'' path handle"

definition PATCH ::
  "('n \<Rightarrow> string \<Rightarrow> 'h \<Rightarrow> 'n \<times> panic option) \<Rightarrow> 'n \<Rightarrow>
   'n Router \<Rightarrow> string \<Rightarrow> 'h \<Rightarrow> 'n Router \<times> panic option" where
  "PATCH addRoute newNode r path handle = Handle addRoute newNode r ''PATCH'' path handle"

definition DELETE ::
  "('n \<Rightarrow> string \<Rightarrow> 'h \<Rightarrow> 'n \<times> panic option) \<Rightarrow> 'n \<Rightarrow>
   'n Router \<Rightarrow> string \<Rightarrow> 'h \<Rightarrow> 'n Router \<times> panic option" where
  "DELETE addRoute newNode r path handle = Handle addRoute newNode r ''DELETE'' path handle"


definition Lookup ::
  "('n \<Rightarrow> string \<Rightarrow> panic + ('h option \<times> Params \<times> bool)) \<Rightarrow>
   'n Router \<Rightarrow> string \<Rightarrow> string \<Rightarrow> panic + ('h option \<times> Params \<times> bool)" where
  "Lookup getValue r method path =
     (case treeOf r method of
        Some root \<Rightarrow> getValue root path
      | None \<Rightarrow> Inr (None, [], False))"

text \<open>
  A history of registrations: the calls \<open>(method, path, handle)\<close> made on a router one
  after the other, each on the router the call before has left (a call that has
  panicked included, for a caller that recovers).
\<close>

fun registrations ::
  "('n \<Rightarrow> string \<Rightarrow> 'h \<Rightarrow> 'n \<times> panic option) \<Rightarrow> 'n \<Rightarrow>
   'n Router \<Rightarrow> (string \<times> string \<times> 'h) list \<Rightarrow> 'n Router" where
  "registrations addRoute newNode r [] = r"
| "registrations addRoute newNode r ((method, path, handle) # calls) =
     registrations addRoute newNode (fst (Handle addRoute newNode r method path handle)) calls"

text \<open>
  A history is non-conflicting when none of its calls ends in a panic.
\<close>

fun nonConflicting ::
  "('n \<Rightarrow> string \<Rightarrow> 'h \<Rightarrow> 'n \<times> panic option) \<Rightarrow> 'n \<Rightarrow>
   'n Router \<Rightarrow> (string \<times> string \<times> 'h) list \<Rightarrow> bool" where
  "nonConflicting addRoute newNode r [] = True"
| "nonConflicting addRoute newNode r ((method, path, handle) # calls) =
     (snd (Handle addRoute newNode r method path handle) = None \<and>
      nonConflicting addRoute newNode (fst (Handle addRoute newNode r method path handle)) calls)"

section \<open>The route tree, modelled from the specification\<close>

text \<open>
  The file of the repository that holds the route tree (the type \<^verbatim>\<open>node\<close> and its methods
  \<^verbatim>\<open>addRoute\<close> and \<^verbatim>\<open>getValue\<close>, which \<^verbatim>\<open>Handle\<close> and \<^verbatim>\<open>Lookup\<close> call) is not among the
  sources at hand.  The definitions of this section are written from sections 3, 4.2, 4.3
  and 6 of the specification and from the description of the parameters at the head of
  router.go.
\<close>

text \<open>
  Modelled from the spec: the registration grammar of the missing route tree (sections 3
  and 6).  A route is read as pieces: a byte of static text, a named parameter \<open>:name\<close>,
  which starts at a segment boundary (right after a \<open>/\<close>) and runs to the next \<open>/\<close> or
  the end, or a catch-all \<open>*name\<close>, which starts at a segment boundary, takes the \<open>/\<close>
  before it (its value includes the leading \<open>/\<close>) and is only legal as the final segment.
\<close>

datatype piece = Lit char | Par string | Cat string

function pieces :: "string \<Rightarrow> panic + piece list" where
  "pieces [] = Inr []"
| "pieces (c # cs) =
     (if c = CHR ''/'' \<and> cs \<noteq> [] \<and> hd cs = CHR ''*'' then
        (if CHR ''/'' \<in> set (tl cs)
         then Inl (Panic ''catch-all routes are only allowed at the end of the path'')
         else Inr [Cat (tl cs)])
      else if c = CHR ''/'' \<and> cs \<noteq> [] \<and> hd cs = CHR '':'' then
        (case pieces (dropWhile (\<lambda>x. x \<noteq> CHR ''/'') (tl cs)) of
           Inl e \<Rightarrow> Inl e
         | Inr ps \<Rightarrow> Inr (Lit c # Par (takeWhile (\<lambda>x. x \<noteq> CHR ''/'') (tl cs)) # ps))
      else
        (case pieces cs of
           Inl e \<Rightarrow> Inl e
         | Inr ps \<Rightarrow> Inr (Lit c # ps)))"
  by pat_completeness auto
termination
proof (relation "measure length")
  show "wf (measure length)" by simp
next
  fix c :: char and cs :: string
  have "length (dropWhile (\<lambda>x. x \<noteq> CHR ''/'') (tl cs)) \<le> length (tl cs)"
    by (rule length_dropWhile_le)
  then show "(dropWhile (\<lambda>x. x \<noteq> CHR ''/'') (tl cs), c # cs) \<in> measure length"
    by simp
next
  fix c :: char and cs :: string
  show "(cs, c # cs) \<in> measure length" by simp
qed

text \<open>
  Modelled from the spec: the node of the missing route tree (section 3).  \<open>prefix\<close> is
  the text the node consumes (the name, for a parameter or catch-all node), \<open>kind\<close> its
  kind, \<open>children\<close> its ordered children, \<open>hasWildcardChild\<close> whether its single child is a
  parameter or catch-all node, \<open>handler\<close> the handler of the route that ends here, if any,
  and \<open>registeredCount\<close> the number of handlers registered in the subtree.
\<close>

datatype kind = Static | Parameter | CatchAll

datatype 'h node =
  Node (prefix: string) (kind: kind) (children: "'h node list") (hasWildcardChild: bool)
    (handler: "'h option") (registeredCount: nat)

text \<open>
  Modelled from the spec: step 1 of the insertion of the missing route tree (section 4.2),
  the length of the longest common prefix of a node's prefix and the static text at the
  head of what is left of the route.
\<close>

fun lcp :: "string \<Rightarrow> piece list \<Rightarrow> nat" where
  "lcp (c # cs) (Lit d # ps) = (if c = d then Suc (lcp cs ps) else 0)"
| "lcp cs ps = 0"

text \<open>Modelled from the spec: the static text at the head of a route (section 4.2).\<close>

fun literals :: "piece list \<Rightarrow> string" where
  "literals (Lit c # ps) = c # literals ps"
| "literals ps = []"

text \<open>
  Modelled from the spec: step 6 of the insertion of the missing route tree (section 4.2),
  the children kept sorted by descending \<open>registeredCount\<close>, ties in insertion order (a
  stable sort).
\<close>

definition reorder :: "'h node list \<Rightarrow> 'h node list" where
  "reorder cs = sort_key (\<lambda>c. - int (registeredCount c)) cs"

text \<open>
  Modelled from the spec: the new child that holds the remainder of a route (steps 3 and 4
  of section 4.2): a static node for the static text, and a parameter or catch-all node
  materialized where a \<open>:\<close> or \<open>*\<close> stands at a segment boundary; the handler is set at
  the last node, and every node has one registered handler beneath it.
\<close>

function build :: "piece list \<Rightarrow> 'h \<Rightarrow> 'h node" where
  "build [] h = Node [] Static [] False (Some h) 1"
| "build (Lit c # ps) h =
     (let pre = literals (Lit c # ps); rest = drop (length pre) (Lit c # ps) in
      if rest = [] then Node pre Static [] False (Some h) 1
      else Node pre Static [build rest h] True None 1)"
| "build (Par name # ps) h =
     (if ps = [] then Node name Parameter [] False (Some h) 1
      else Node name Parameter [build ps h] (case ps of Lit c # _ \<Rightarrow> False | _ \<Rightarrow> True) None 1)"
| "build (Cat name # ps) h = Node name CatchAll [] False (Some h) 1"
  by pat_completeness auto
termination
  by (relation "measure (\<lambda>(ps, h). length ps)") auto

text \<open>
  Modelled from the spec: steps 1, 2 and 4 of the insertion of the missing route tree
  (section 4.2), what entering a node with the rest of a route gives.  At a static node, a
  common prefix shorter than the node's prefix asks for a split at that length; otherwise
  the prefix is consumed.  At a parameter or catch-all node the route must go on with the
  same wildcard: another name, another kind or static text is a conflict.
\<close>

datatype entered = Split nat | Rest "piece list"

definition enter :: "'h node \<Rightarrow> piece list \<Rightarrow> panic + entered" where
  "enter n ps =
     (case kind n of
        Static \<Rightarrow>
          (let k = lcp (prefix n) ps in
           if k < length (prefix n) then Inr (Split k) else Inr (Rest (drop k ps)))
      | Parameter \<Rightarrow>
          (case ps of
             Par name # rest \<Rightarrow>
               if name = prefix n then Inr (Rest rest)
               else Inl (Panic ''wildcard conflicts with the existing wildcard'')
           | _ \<Rightarrow> Inl (Panic ''path conflicts with the existing wildcard''))
      | CatchAll \<Rightarrow>
          (case ps of
             Cat name # rest \<Rightarrow>
               if name = prefix n then Inr (Rest rest)
               else Inl (Panic ''wildcard conflicts with the existing wildcard'')
           | _ \<Rightarrow> Inl (Panic ''path conflicts with the existing wildcard'')))"

text \<open>
  Modelled from the spec: step 2 of the insertion of the missing route tree (section 4.2).
  The new intermediate node holds the common prefix; the existing node, with the rest of
  its prefix, its children and its handler, becomes its child; the insertion goes on from
  the intermediate node: the route ends there (step 5), or its remainder is appended as a
  new child (step 3: the existing child cannot match its first byte), or it goes on with a
  wildcard, which may not stand beside a static sibling (step 4).
\<close>

definition splitNode :: "'h node \<Rightarrow> nat \<Rightarrow> piece list \<Rightarrow> 'h \<Rightarrow> panic + 'h node" where
  "splitNode n k rest h =
     (let old = Node (drop k (prefix n)) Static (children n) (hasWildcardChild n) (handler n)
                  (registeredCount n)
      in case rest of
           [] \<Rightarrow> Inr (Node (take k (prefix n)) Static [old] False (Some h) (registeredCount n + 1))
         | Lit d # _ \<Rightarrow>
             Inr (Node (take k (prefix n)) Static (reorder [old, build rest h]) False None
                    (registeredCount n + 1))
         | _ \<Rightarrow> Inl (Panic ''wildcard conflicts with the existing children''))"

text \<open>
  Modelled from the spec: the first-byte index of the static children (sections 4.2 and
  4.3): the static child whose prefix begins with a given byte.
\<close>

definition firstByte :: "'h node \<Rightarrow> char \<Rightarrow> bool" where
  "firstByte c d = (kind c = Static \<and> prefix c \<noteq> [] \<and> hd (prefix c) = d)"

text \<open>
  Modelled from the spec: the insertion of the missing route tree (section 4.2, steps 1
  to 6).  \<open>ins\<close> enters a node; when the route ends there it sets the handler, a handler
  already set being a duplicate route; when static text follows it descends into the
  static child with that first byte or appends a new child (\<open>insStatic\<close>), which a
  wildcard child forbids; when a wildcard follows it materializes the wildcard child of a
  node without children, descends into the wildcard child there is, and fails beside
  static children.  The count of every node on the way grows by one and the children are
  reordered.
\<close>

fun ins :: "'h node \<Rightarrow> piece list \<Rightarrow> 'h \<Rightarrow> panic + 'h node"
  and insStatic :: "'h node list \<Rightarrow> char \<Rightarrow> piece list \<Rightarrow> 'h \<Rightarrow> panic + 'h node list" where
  "ins (Node pre knd cs wild hnd cnt) ps h =
     (case enter (Node pre knd cs wild hnd cnt) ps of
        Inl e \<Rightarrow> Inl e
      | Inr (Split k) \<Rightarrow> splitNode (Node pre knd cs wild hnd cnt) k (drop k ps) h
      | Inr (Rest rest) \<Rightarrow>
          (case rest of
             [] \<Rightarrow>
               (case hnd of
                  Some _ \<Rightarrow> Inl (Panic ''a handle is already registered for the path'')
                | None \<Rightarrow> Inr (Node pre knd cs wild (Some h) (cnt + 1)))
           | Lit d # _ \<Rightarrow>
               if wild then Inl (Panic ''path conflicts with the existing wildcard'')
               else
                 (case insStatic cs d rest h of
                    Inl e \<Rightarrow> Inl e
                  | Inr cs' \<Rightarrow> Inr (Node pre knd (reorder cs') False hnd (cnt + 1)))
           | _ \<Rightarrow>
               (case cs of
                  [] \<Rightarrow> Inr (Node pre knd [build rest h] True hnd (cnt + 1))
                | c # cs' \<Rightarrow>
                    if wild then
                      (case ins c rest h of
                         Inl e \<Rightarrow> Inl e
                       | Inr c' \<Rightarrow> Inr (Node pre knd (c' # cs') True hnd (cnt + 1)))
                    else Inl (Panic ''wildcard conflicts with the existing children''))))"
| "insStatic [] d rest h = Inr [build rest h]"
| "insStatic (c # cs) d rest h =
     (if firstByte c d then
        (case ins c rest h of
           Inl e \<Rightarrow> Inl e
         | Inr c' \<Rightarrow> Inr (c' # cs))
      else
        (case insStatic cs d rest h of
           Inl e \<Rightarrow> Inl e
         | Inr cs' \<Rightarrow> Inr (c # cs')))"

text \<open>
  Modelled from the spec: \<^verbatim>\<open>new(node)\<close> of the missing route tree, the node with every field
  at its zero value.
\<close>

definition newNode :: "'h node" where
  "newNode = Node [] Static [] False None 0"

text \<open>
  Modelled from the spec: \<^verbatim>\<open>addRoute\<close> of the missing route tree, the \<open>insert\<close> of sections
  4.2 and 6.  The route is read as pieces; in an empty tree the root becomes the node built
  for the route, otherwise the route is inserted from the root.  A configuration error is
  a panic, and then the tree is returned as it was.
\<close>

definition addRoute :: "'h node \<Rightarrow> string \<Rightarrow> 'h \<Rightarrow> 'h node \<times> panic option" where
  "addRoute n path h =
     (case pieces path of
        Inl e \<Rightarrow> (n, Some e)
      | Inr ps \<Rightarrow>
          if prefix n = [] \<and> children n = [] \<and> handler n = None then (build ps h, None)
          else
            (case ins n ps h of
               Inl e \<Rightarrow> (n, Some e)
             | Inr n' \<Rightarrow> (n', None)))"

text \<open>
  Modelled from the spec: what a node of the missing route tree consumes of a path
  (section 4.3): a static node its prefix, byte for byte; a parameter node one segment, up
  to the next \<open>/\<close> or the end, which it records under its name (an empty segment does not
  match, as in the examples at the head of router.go); a catch-all node the remainder of
  the path, leading \<open>/\<close> included.  The result is the rest of the path and the parameters
  recorded.
\<close>

definition consume :: "'h node \<Rightarrow> string \<Rightarrow> (string \<times> Params) option" where
  "consume n path =
     (case kind n of
        Static \<Rightarrow>
          if take (length (prefix n)) path = prefix n
          then Some (drop (length (prefix n)) path, [])
          else None
      | Parameter \<Rightarrow>
          (let v = takeWhile (\<lambda>x. x \<noteq> CHR ''/'') path in
           if v = [] then None
           else Some (dropWhile (\<lambda>x. x \<noteq> CHR ''/'') path, [\<lparr>Key = prefix n, Value = v\<rparr>]))
      | CatchAll \<Rightarrow>
          (if path \<noteq> [] \<and> hd path = CHR ''/''
           then Some ([], [\<lparr>Key = prefix n, Value = path\<rparr>])
           else None))"

text \<open>
  Modelled from the spec: the depth-first descent of the lookup of the missing route tree
  (section 4.3).  A node consumes its part of the path; when the path ends there the
  node's handler is the result; otherwise the static child with the next byte is tried
  first and then, when that gives nothing, the wildcard child.  The parameters are
  collected in the order of the descent.
\<close>

fun descend :: "'h node \<Rightarrow> string \<Rightarrow> ('h \<times> Params) option"
  and descendStatic :: "'h node list \<Rightarrow> string \<Rightarrow> ('h \<times> Params) option"
  and descendWildcard :: "'h node list \<Rightarrow> string \<Rightarrow> ('h \<times> Params) option" where
  "descend (Node pre knd cs wild hnd cnt) path =
     (case consume (Node pre knd cs wild hnd cnt) path of
        None \<Rightarrow> None
      | Some (rest, ps) \<Rightarrow>
          if rest = [] then (case hnd of None \<Rightarrow> None | Some h \<Rightarrow> Some (h, ps))
          else
            (case descendStatic cs rest of
               Some (h, ps') \<Rightarrow> Some (h, ps @ ps')
             | None \<Rightarrow>
                 (case descendWildcard cs rest of
                    Some (h, ps') \<Rightarrow> Some (h, ps @ ps')
                  | None \<Rightarrow> None)))"
| "descendStatic [] path = None"
| "descendStatic (c # cs) path =
     (if firstByte c (hd path) then descend c path else descendStatic cs path)"
| "descendWildcard [] path = None"
| "descendWildcard (c # cs) path =
     (if kind c \<noteq> Static then descend c path else descendWildcard cs path)"

text \<open>
  Modelled from the spec: the trailing-slash redirect hint of the missing route tree
  (section 4.3 and the glossary): the path would match if a trailing slash were added or
  removed.
\<close>

definition redirect :: "'h node \<Rightarrow> string \<Rightarrow> bool" where
  "redirect n path =
     ((path \<noteq> [] \<and> last path = CHR ''/'' \<and> descend n (butlast path) \<noteq> None) \<or>
      descend n (path @ ''/'') \<noteq> None)"

text \<open>
  Modelled from the spec: \<^verbatim>\<open>getValue\<close> of the missing route tree, the \<open>lookup\<close> of sections
  4.3 and 6.  It never fails: a match gives the handler and the parameters, a miss the nil
  handler, no parameters and the redirect hint.
\<close>

definition getValue :: "'h node \<Rightarrow> string \<Rightarrow> panic + ('h option \<times> Params \<times> bool)" where
  "getValue n path =
     (case descend n path of
        Some (h, ps) \<Rightarrow> Inr (Some h, ps, False)
      | None \<Rightarrow> Inr (None, [], redirect n path))"

section \<open>The path normalization of the specification\<close>

text \<open>
  The reference follows the words of the specification (section 4.1), not the code.
  The input is split at \<open>/\<close> into segments.  An empty segment (between two slashes of a
  run, or at either end) and a \<open>.\<close> segment are dropped; a \<open>..\<close> segment removes the
  most recently kept segment and does nothing when none is kept; every other segment is
  kept.  The kept segments are written each after a \<open>/\<close>.  A trailing \<open>/\<close> or a trailing
  \<open>.\<close> segment of the input is preserved as a trailing \<open>/\<close>; the empty input, and every
  input that keeps no segment, gives \<open>/\<close>.
\<close>

fun segments :: "string \<Rightarrow> string list" where
  "segments [] = [[]]"
| "segments (c # cs) =
     (if c = CHR ''/'' then [] # segments cs
      else (case segments cs of [] \<Rightarrow> [[c]] | s # ss \<Rightarrow> (c # s) # ss))"

definition apply_segment :: "string list \<Rightarrow> string \<Rightarrow> string list" where
  "apply_segment kept s =
     (if s = [] then kept
      else if s = ''.'' then kept
      else if s = ''..'' then butlast kept
      else kept @ [s])"

definition kept_segments :: "string \<Rightarrow> string list" where
  "kept_segments p = foldl apply_segment [] (segments p)"

definition trailing_slash :: "string \<Rightarrow> bool" where
  "trailing_slash p = (last (segments p) = [] \<or> last (segments p) = ''.'')"

definition join_segments :: "string list \<Rightarrow> string" where
  "join_segments kept = concat (map (\<lambda>s. CHR ''/'' # s) kept)"

definition normalize_path :: "string \<Rightarrow> string" where
  "normalize_path p =
     (if p = [] then ''/''
      else if kept_segments p = [] then ''/''
      else join_segments (kept_segments p) @ (if trailing_slash p then ''/'' else []))"

text \<open>
  The same recipe without the trailing rule: split at \<open>/\<close>, drop the empty segments of
  the runs of slashes and the \<open>.\<close> segments, let \<open>..\<close> remove the most recently kept
  segment, give \<open>/\<close> for the empty input, and rejoin the kept segments under a leading
  \<open>/\<close>, with nothing after the last of them.
\<close>

definition normalize_recipe :: "string \<Rightarrow> string" where
  "normalize_recipe p =
     (if p = [] then ''/''
      else if kept_segments p = [] then ''/''
      else join_segments (kept_segments p))"

text \<open>
  An already canonical path: it begins with \<open>/\<close>, and of the segments after that
  slash none is \<open>.\<close> or \<open>..\<close> and none but the last is empty (the last segment is
  empty when the path ends in \<open>/\<close>, as \<open>/\<close> itself and \<open>/a/\<close> do).
\<close>

definition canonical :: "string \<Rightarrow> bool" where
  "canonical p =
     (p \<noteq> [] \<and> hd p = CHR ''/'' \<and>
      (\<forall>s\<in>set (butlast (segments (tl p))). s \<noteq> []) \<and>
      (\<forall>s\<in>set (segments (tl p)). s \<noteq> ''.'' \<and> s \<noteq> ''..''))"

section \<open>The matching of one route\<close>

text \<open>
  What it is for a path to match a route, and the parameters it then captures, written
  from the description of the parameters (sections 3 and 4.3, and the examples at the head
  of router.go) on the route alone, without a tree: static text matches itself, \<open>:name\<close>
  matches one non-empty segment up to the next \<open>/\<close> or the end, \<open>*name\<close> matches the
  remainder from its \<open>/\<close> on; the captured pairs come in the order of the route.
\<close>

fun matchPath :: "piece list \<Rightarrow> string \<Rightarrow> Params option" where
  "matchPath [] path = (if path = [] then Some [] else None)"
| "matchPath (Lit c # ps) path =
     (case path of
        [] \<Rightarrow> None
      | d # ds \<Rightarrow> if c = d then matchPath ps ds else None)"
| "matchPath (Par name # ps) path =
     (let v = takeWhile (\<lambda>x. x \<noteq> CHR ''/'') path in
      if v = [] then None
      else
        (case matchPath ps (dropWhile (\<lambda>x. x \<noteq> CHR ''/'') path) of
           None \<Rightarrow> None
         | Some qs \<Rightarrow> Some (\<lparr>Key = name, Value = v\<rparr> # qs)))"
| "matchPath (Cat name # ps) path =
     (if ps = [] \<and> path \<noteq> [] \<and> hd path = CHR ''/''
      then Some [\<lparr>Key = name, Value = path\<rparr>]
      else None)"

definition matchRoute :: "string \<Rightarrow> string \<Rightarrow> Params option" where
  "matchRoute route path = (case pieces route of Inl e \<Rightarrow> None | Inr ps \<Rightarrow> matchPath ps path)"

text \<open>
  The literal segments of a route looked up as a path: every wildcard of the route, from
  left to right, with the text that stands at its place in the route itself, \<open>:name\<close> for
  a parameter and \<open>/*name\<close> for a catch-all.
\<close>

fun literalParams :: "piece list \<Rightarrow> Params" where
  "literalParams [] = []"
| "literalParams (Lit c # ps) = literalParams ps"
| "literalParams (Par name # ps) = \<lparr>Key = name, Value = CHR '':'' # name\<rparr> # literalParams ps"
| "literalParams (Cat name # ps) =
     \<lparr>Key = name, Value = CHR ''/'' # CHR ''*'' # name\<rparr> # literalParams ps"

definition literalSegments :: "string \<Rightarrow> Params" where
  "literalSegments path = (case pieces path of Inl e \<Rightarrow> [] | Inr ps \<Rightarrow> literalParams ps)"

definition exampleRoutes :: "(string \<times> string \<times> nat) list" where
  "exampleRoutes =
     [(''GET'', ''/user/:id'', 1), (''GET'', ''/user/:id/profile'', 2), (''GET'', ''/users'', 3),
      (''GET'', ''/'', 4), (''GET'', ''/files/*filepath'', 5), (''POST'', ''/user/:id'', 6)]"

section \<open>CleanPath computes the normalization\<close>

subsection \<open>The buffer and the bytes written\<close>

definition written :: "string option \<Rightarrow> string \<Rightarrow> nat \<Rightarrow> string" where
  "written buf p w = (case buf of None \<Rightarrow> take w p | Some b \<Rightarrow> take w b)"

definition capacity :: "string option \<Rightarrow> string \<Rightarrow> nat" where
  "capacity buf p = (case buf of None \<Rightarrow> length p | Some b \<Rightarrow> length b)"

definition rooted :: "string list \<Rightarrow> string" where
  "rooted kept = (if kept = [] then ''/'' else join_segments kept)"

lemma bufApp_ok:
  assumes "w < capacity buf p"
  shows "\<exists>buf'. bufApp buf p w c = Inr buf' \<and> written buf' p (Suc w) = written buf p w @ [c]
           \<and> capacity buf' p = capacity buf p"
proof (cases buf)
  case None
  with assms have w: "w < length p" by (simp add: capacity_def)
  show ?thesis
  proof (cases "p ! w = c")
    case True
    with None w show ?thesis
      by (simp add: bufApp_def byteAt_def written_def capacity_def take_Suc_conv_app_nth)
  next
    case False
    with None w show ?thesis
      by (simp add: bufApp_def byteAt_def setByte_def written_def capacity_def
          take_Suc_conv_app_nth nth_append)
  qed
next
  case (Some b)
  with assms show ?thesis
    by (simp add: bufApp_def setByte_def written_def capacity_def take_Suc_conv_app_nth)
qed

lemma copyElement_ok:
  assumes "w + length p \<le> r + capacity buf p" "r \<le> length p"
  shows "\<exists>buf'. copyElement p buf r w =
            Inr (buf', r + length (takeWhile (\<lambda>c. c \<noteq> CHR ''/'') (drop r p)),
                       w + length (takeWhile (\<lambda>c. c \<noteq> CHR ''/'') (drop r p)))
           \<and> written buf' p (w + length (takeWhile (\<lambda>c. c \<noteq> CHR ''/'') (drop r p)))
               = written buf p w @ takeWhile (\<lambda>c. c \<noteq> CHR ''/'') (drop r p)
           \<and> capacity buf' p = capacity buf p"
  using assms
proof (induction p buf r w rule: copyElement.induct)
  case (1 p buf r w)
  show ?case
  proof (cases "r < length p \<and> p ! r \<noteq> CHR ''/''")
    case True
    then have d: "drop r p = p ! r # drop (Suc r) p"
      by (simp add: Cons_nth_drop_Suc)
    from True "1.prems" have "w < capacity buf p" by simp
    from bufApp_ok [OF this, of "p ! r"] obtain b where
      b: "bufApp buf p w (p ! r) = Inr b"
      and wb: "written b p (Suc w) = written buf p w @ [p ! r]"
      and cb: "capacity b p = capacity buf p" by blast
    from True "1.prems" cb have "w + 1 + length p \<le> r + 1 + capacity b p" "r + 1 \<le> length p"
      by simp_all
    from "1.IH" [OF True b this] obtain buf' where
      c: "copyElement p b (r + 1) (w + 1) =
            Inr (buf', r + 1 + length (takeWhile (\<lambda>c. c \<noteq> CHR ''/'') (drop (r + 1) p)),
                       w + 1 + length (takeWhile (\<lambda>c. c \<noteq> CHR ''/'') (drop (r + 1) p)))"
      and wc: "written buf' p (w + 1 + length (takeWhile (\<lambda>c. c \<noteq> CHR ''/'') (drop (r + 1) p)))
               = written b p (w + 1) @ takeWhile (\<lambda>c. c \<noteq> CHR ''/'') (drop (r + 1) p)"
      and cc: "capacity buf' p = capacity b p" by blast
    have "copyElement p buf r w = copyElement p b (r + 1) (w + 1)"
      using True b by (subst copyElement.simps) simp
    with c wc cc cb wb d True show ?thesis by simp
  next
    case False
    with "1.prems" have "takeWhile (\<lambda>c. c \<noteq> CHR ''/'') (drop r p) = []"
      by (cases "r < length p") (simp_all add: Cons_nth_drop_Suc [symmetric])
    moreover from False have "copyElement p buf r w = Inr (buf, r, w)"
      by (subst copyElement.simps) auto
    ultimately show ?thesis by simp
  qed
qed


lemma backtrack_scan:
  assumes "i < length src" "m \<le> i" "1 \<le> i"
    "\<forall>j. m < j \<and> j \<le> i \<longrightarrow> src ! j \<noteq> CHR ''/''" "1 < m \<longrightarrow> src ! m = CHR ''/''"
  shows "backtrack src i = Inr (max m 1)"
  using assms
proof (induction src i rule: backtrack.induct)
  case (1 src i)
  show ?case
  proof (cases "1 < i")
    case False
    with "1.prems" have "i = 1" "m \<le> 1" by simp_all
    then show ?thesis by (subst backtrack.simps) (simp add: max_def)
  next
    case True
    from "1.prems"(1) have at: "byteAt src i = Inr (src ! i)" by (simp add: byteAt_def)
    show ?thesis
    proof (cases "m = i")
      case True
      with \<open>1 < i\<close> "1.prems"(5) at show ?thesis
        by (subst backtrack.simps) (simp add: max_def)
    next
      case False
      with "1.prems" have ne: "src ! i \<noteq> CHR ''/''" by simp
      from False "1.prems" True have
        "i - 1 < length src" "m \<le> i - 1" "1 \<le> i - 1"
        "\<forall>j. m < j \<and> j \<le> i - 1 \<longrightarrow> src ! j \<noteq> CHR ''/''" by auto
      from "1.IH" [OF True at ne this "1.prems"(5)]
      have "backtrack src (i - 1) = Inr (max m 1)" .
      with True at ne show ?thesis by (subst backtrack.simps) simp
    qed
  qed
qed

definition valid_kept :: "string list \<Rightarrow> bool" where
  "valid_kept kept = (\<forall>s\<in>set kept. s \<noteq> [] \<and> CHR ''/'' \<notin> set s)"

lemma join_segments_snoc: "join_segments (ks @ [s]) = join_segments ks @ CHR ''/'' # s"
  by (simp add: join_segments_def)

lemma join_segments_Nil: "join_segments [] = []"
  by (simp add: join_segments_def)

lemma join_segments_Cons: "join_segments (s # ks) = CHR ''/'' # s @ join_segments ks"
  by (simp add: join_segments_def)

lemma length_join_segments:
  assumes "valid_kept ks" "ks \<noteq> []"
  shows "1 < length (join_segments ks)"
proof -
  from assms(2) obtain s ks' where ks: "ks = s # ks'" by (cases ks) auto
  with assms(1) have "s \<noteq> []" by (simp add: valid_kept_def)
  then have "0 < length s" by simp
  with ks show ?thesis by (simp add: join_segments_Cons)
qed

lemma length_rooted_gt1: "valid_kept ks \<Longrightarrow> (1 < length (rooted ks)) = (ks \<noteq> [])"
  using length_join_segments [of ks] by (auto simp: rooted_def)

lemma rooted_snoc: "rooted (ks @ [s]) = (if ks = [] then [] else rooted ks) @ CHR ''/'' # s"
  by (simp add: rooted_def join_segments_snoc join_segments_Nil)

lemma valid_kept_butlast: "valid_kept ks \<Longrightarrow> valid_kept (butlast ks)"
  by (auto simp: valid_kept_def dest: in_set_butlastD)

lemma valid_kept_snoc: "valid_kept ks \<Longrightarrow> s \<noteq> [] \<Longrightarrow> CHR ''/'' \<notin> set s \<Longrightarrow> valid_kept (ks @ [s])"
  by (auto simp: valid_kept_def)

definition source :: "string option \<Rightarrow> string \<Rightarrow> string" where
  "source buf p = (case buf of None \<Rightarrow> p | Some b \<Rightarrow> b)"

lemma written_source: "written buf p w = take w (source buf p)"
  by (simp add: written_def source_def split: option.splits)

lemma capacity_source: "capacity buf p = length (source buf p)"
  by (simp add: capacity_def source_def split: option.splits)

lemma dotdotElement_source: "1 < w \<Longrightarrow> dotdotElement p buf w = backtrack (source buf p) (w - 1)"
  by (simp add: dotdotElement_def source_def split: option.splits)

lemma dotdotElement_ok:
  assumes wr: "written buf p w = rooted kept" and w: "w = length (rooted kept)"
    and cap: "w \<le> capacity buf p" and v: "valid_kept kept"
  shows "dotdotElement p buf w = Inr (length (rooted (butlast kept)))
         \<and> written buf p (length (rooted (butlast kept))) = rooted (butlast kept)
         \<and> length (rooted (butlast kept)) \<le> w"
proof (cases "kept = []")
  case True
  with w wr show ?thesis by (simp add: dotdotElement_def rooted_def)
next
  case False
  then obtain ks s where kept: "kept = ks @ [s]" by (metis rev_exhaust)
  with v have s: "s \<noteq> []" "CHR ''/'' \<notin> set s" and vks: "valid_kept ks"
    by (auto simp: valid_kept_def)
  define src where "src = source buf p"
  define m where "m = length (join_segments ks)"
  have out: "take w src = join_segments ks @ CHR ''/'' # s"
    using wr kept by (simp add: written_source src_def rooted_def join_segments_snoc)
  have wlen: "w = m + 1 + length s"
    using w kept by (simp add: rooted_def join_segments_snoc m_def)
  have len: "w \<le> length src" using cap by (simp add: capacity_source src_def)
  have nth: "src ! j = (join_segments ks @ CHR ''/'' # s) ! j" if "j < w" for j
    using that out by (metis nth_take)
  have slash: "src ! m = CHR ''/''"
    using nth [of m] wlen by (simp add: m_def nth_append)
  have nons: "\<forall>j. m < j \<and> j \<le> w - 1 \<longrightarrow> src ! j \<noteq> CHR ''/''"
  proof (intro allI impI)
    fix j assume j: "m < j \<and> j \<le> w - 1"
    with wlen have "j < w" by simp
    from nth [OF this] j wlen have "src ! j = s ! (j - m - 1)"
      by (simp add: nth_append m_def nth_Cons')
    moreover from j wlen have "j - m - 1 < length s" by auto
    ultimately show "src ! j \<noteq> CHR ''/''" using s(2) by (metis nth_mem)
  qed
  from wlen s len have "w - 1 < length src" "m \<le> w - 1" "1 \<le> w - 1"
    by (cases s; simp)+
  from backtrack_scan [OF this nons] slash
  have bt: "backtrack src (w - 1) = Inr (max m 1)" by simp
  have w1: "1 < w" using wlen s by (cases s) simp_all
  have mx: "max m 1 = length (rooted ks)"
    using length_join_segments [OF vks] by (cases "ks = []") (simp_all add: rooted_def m_def join_segments_Nil)
  have "take (max m 1) src = take (max m 1) (take w src)"
    using wlen by (simp add: min_def max_def)
  also have "\<dots> = rooted ks"
    unfolding out using length_join_segments [OF vks]
    by (cases "ks = []") (simp_all add: rooted_def m_def join_segments_Nil max_def)
  finally have t: "take (max m 1) src = rooted ks" .
  have "written buf p (length (rooted ks)) = rooted ks"
    unfolding mx [symmetric] written_source using t by (simp only: src_def)
  moreover have "length (rooted ks) \<le> w" using mx wlen by simp
  ultimately show ?thesis
    using bt w1 mx kept by (simp add: dotdotElement_source src_def)
qed

subsection \<open>segments\<close>

lemma segments_not_Nil [simp]: "segments s \<noteq> []"
  by (induction s) (auto split: list.splits)

lemma segments_elem: "CHR ''/'' \<notin> set e \<Longrightarrow> segments e = [e]"
  by (induction e) auto

lemma segments_elem_slash:
  "CHR ''/'' \<notin> set e \<Longrightarrow> segments (e @ CHR ''/'' # t) = e # segments t"
  by (induction e) auto

lemma segments_slash_free: "s \<in> set (segments p) \<Longrightarrow> CHR ''/'' \<notin> set s"
  by (induction p arbitrary: s) (auto split: if_splits list.splits)

lemma segments_snoc_slash: "segments (s @ [CHR ''/'']) = segments s @ [[]]"
proof (induction s)
  case Nil
  then show ?case by simp
next
  case (Cons a s)
  obtain x xs where x: "segments s = x # xs" by (cases "segments s") simp_all
  with Cons show ?case by simp
qed

lemma segments_snoc_char:
  "c \<noteq> CHR ''/'' \<Longrightarrow> segments (s @ [c]) = butlast (segments s) @ [last (segments s) @ [c]]"
proof (induction s)
  case Nil
  then show ?case by simp
next
  case (Cons a s)
  obtain x xs where x: "segments s = x # xs" by (cases "segments s") simp_all
  with Cons show ?case by (cases "xs = []") simp_all
qed

lemma last_segments_snoc:
  "last (segments (s @ [c])) = (if c = CHR ''/'' then [] else last (segments s) @ [c])"
  by (simp add: segments_snoc_slash segments_snoc_char)

lemma last_segments_Nil: "s \<noteq> [] \<Longrightarrow> (last (segments s) = []) = (last s = CHR ''/'')"
proof -
  assume "s \<noteq> []"
  then obtain s' c where "s = s' @ [c]" by (metis rev_exhaust)
  then show ?thesis by (simp add: last_segments_snoc)
qed

definition elem :: "string \<Rightarrow> string" where
  "elem rest = takeWhile (\<lambda>c. c \<noteq> CHR ''/'') rest"

definition after :: "string \<Rightarrow> string" where
  "after rest = dropWhile (\<lambda>c. c \<noteq> CHR ''/'') rest"

lemma elem_after: "rest = elem rest @ after rest"
  by (simp add: elem_def after_def)

lemma elem_slash_free: "CHR ''/'' \<notin> set (elem rest)"
  by (auto simp: elem_def dest: set_takeWhileD)

lemma after_cases: "after rest = [] \<or> (\<exists>t. after rest = CHR ''/'' # t)"
proof (cases "after rest")
  case Nil
  then show ?thesis by simp
next
  case (Cons c t)
  then have "c = CHR ''/''"
    by (simp add: after_def dropWhile_eq_Cons_conv)
  with Cons show ?thesis by simp
qed

subsection \<open>One iteration\<close>

lemma drop_facts:
  assumes "drop r p = rest" "rest \<noteq> []"
  shows "length p = r + length rest" "p ! r = rest ! 0"
    "1 < length rest \<Longrightarrow> p ! Suc r = rest ! 1"
    "2 < length rest \<Longrightarrow> p ! Suc (Suc r) = rest ! 2"
proof -
  from assms have r: "r < length p" by auto
  from assms(1) have "length rest = length p - r" by auto
  with r show "length p = r + length rest" by simp
  from r assms(1) show "p ! r = rest ! 0" by (metis Nat.add_0_right less_imp_le nth_drop)
  from r assms(1) show "p ! Suc r = rest ! 1"
    by (metis add.commute less_imp_le nth_drop plus_1_eq_Suc)
  from r assms(1) have "rest ! 2 = p ! (r + 2)" by (metis less_imp_le nth_drop)
  then show "p ! Suc (Suc r) = rest ! 2" by simp
qed

lemma loopBody_slash:
  assumes "drop r p = CHR ''/'' # t"
  shows "loopBody p buf r w tr = Inr (buf, r + 1, w, tr)"
  using drop_facts(2) [OF assms] by (simp add: loopBody_def)

lemma loopBody_dot_end:
  assumes "drop r p = ''.''"
  shows "loopBody p buf r w tr = Inr (buf, r + 1, w, True)"
  using drop_facts(1,2) [OF assms] by (simp add: loopBody_def)

lemma loopBody_dot_slash:
  assumes "drop r p = CHR ''.'' # CHR ''/'' # t"
  shows "loopBody p buf r w tr = Inr (buf, r + 2, w, tr)"
  using drop_facts(1,2,3) [OF assms] by (simp add: loopBody_def byteAt_def)

lemma loopBody_dotdot_end:
  assumes "drop r p = ''..''"
  shows "loopBody p buf r w tr = dotdotCase p buf r w tr"
  using drop_facts(1,2,3) [OF assms] by (simp add: loopBody_def byteAt_def)

lemma loopBody_dotdot_slash:
  assumes "drop r p = CHR ''.'' # CHR ''.'' # CHR ''/'' # t"
  shows "loopBody p buf r w tr = dotdotCase p buf r w tr"
  using drop_facts [OF assms] by (simp add: loopBody_def byteAt_def)

lemma loopBody_default:
  assumes "drop r p = rest" "elem rest \<noteq> []" "elem rest \<noteq> ''.''" "elem rest \<noteq> ''..''"
  shows "loopBody p buf r w tr = defaultCase p buf r w tr"
proof -
  from assms(2) obtain c t where rest: "rest = c # t" and c: "c \<noteq> CHR ''/''"
    by (cases rest) (auto simp: elem_def split: if_splits)
  note f = drop_facts [OF assms(1)]
  show ?thesis
  proof (cases "c = CHR ''.''")
    case False
    with f(2) rest c show ?thesis by (simp add: loopBody_def)
  next
    case True
    with assms(3) rest obtain c1 t1 where t: "t = c1 # t1" and c1: "c1 \<noteq> CHR ''/''"
      by (cases t) (auto simp: elem_def split: if_splits)
    show ?thesis
    proof (cases "c1 = CHR ''.''")
      case False
      with f(1,2,3) rest t True c1 show ?thesis by (simp add: loopBody_def byteAt_def)
    next
      case c1dot: True
      with assms(4) rest t True obtain c2 t2 where t1: "t1 = c2 # t2" and c2: "c2 \<noteq> CHR ''/''"
        by (cases t1) (auto simp: elem_def split: if_splits)
      with f rest t True c1dot show ?thesis by (simp add: loopBody_def byteAt_def)
    qed
  qed
qed

definition loop_inv :: "string \<Rightarrow> string option \<Rightarrow> nat \<Rightarrow> nat \<Rightarrow> string list \<Rightarrow> bool" where
  "loop_inv p buf r w kept =
     (written buf p w = rooted kept \<and> length (rooted kept) = w \<and> valid_kept kept \<and>
      w + length p \<le> r + capacity buf p \<and> r \<le> length p)"

definition room :: "string \<Rightarrow> string option \<Rightarrow> nat \<Rightarrow> nat \<Rightarrow> bool" where
  "room p buf r w = (1 < w \<longrightarrow> w + length p < r + capacity buf p)"

lemma realElement_ok:
  assumes inv: "loop_inv p buf r w kept" and room: "room p buf r w" and r: "r < length p"
    and e: "e = elem (drop r p)" "e \<noteq> []"
  shows "\<exists>buf'. realElement p buf r w = Inr (buf', r + length e, length (rooted (kept @ [e])))
           \<and> loop_inv p buf' (r + length e) (length (rooted (kept @ [e]))) (kept @ [e])
           \<and> length (rooted (kept @ [e])) + length p < Suc (r + length e) + capacity buf' p"
proof -
  from inv have wr: "written buf p w = rooted kept" and w: "length (rooted kept) = w"
    and v: "valid_kept kept" and sl: "w + length p \<le> r + capacity buf p"
    by (simp_all add: loop_inv_def)
  have v': "valid_kept (kept @ [e])"
    using v e elem_slash_free [of "drop r p"] by (simp add: valid_kept_snoc)
  show ?thesis
  proof (cases "1 < w")
    case True
    have kne: "kept \<noteq> []" using length_rooted_gt1 [OF v] w True by simp
    from True room have strict: "w + length p < r + capacity buf p" by (simp add: room_def)
    with r have "w < capacity buf p" by simp
    from bufApp_ok [OF this, of "CHR ''/''"] obtain b where
      b: "bufApp buf p w (CHR ''/'') = Inr b"
      and wb: "written b p (Suc w) = written buf p w @ [CHR ''/'']"
      and cb: "capacity b p = capacity buf p" by blast
    from strict cb r have "Suc w + length p \<le> r + capacity b p" "r \<le> length p" by simp_all
    from copyElement_ok [OF this] e(1) obtain buf' where
      c: "copyElement p b r (Suc w) = Inr (buf', r + length e, Suc w + length e)"
      and wc: "written buf' p (Suc w + length e) = written b p (Suc w) @ e"
      and cc: "capacity buf' p = capacity b p" by (auto simp: elem_def)
    have len: "length (rooted (kept @ [e])) = Suc w + length e"
      using kne w by (simp add: rooted_snoc)
    have "realElement p buf r w = Inr (buf', r + length e, Suc w + length e)"
      using True b c by (simp add: realElement_def)
    moreover have "written buf' p (Suc w + length e) = rooted (kept @ [e])"
      using wc wb wr kne by (simp add: rooted_snoc)
    moreover have "Suc w + length e + length p \<le> r + length e + capacity buf' p"
      using strict cc cb by simp
    moreover have "r + length e \<le> length p"
      using e(1) r by (simp add: elem_def) (metis length_drop length_takeWhile_le le_diff_conv2 less_imp_le add.commute)
    ultimately show ?thesis
      using v' cc cb strict by (auto simp: loop_inv_def len)
  next
    case False
    have kne: "kept = []" using length_rooted_gt1 [OF v] w False by simp
    with w have w1: "w = 1" by (simp add: rooted_def)
    from sl r have "w + length p \<le> r + capacity buf p" "r \<le> length p" by simp_all
    from copyElement_ok [OF this] e(1) obtain buf' where
      c: "copyElement p buf r w = Inr (buf', r + length e, w + length e)"
      and wc: "written buf' p (w + length e) = written buf p w @ e"
      and cc: "capacity buf' p = capacity buf p" by (auto simp: elem_def)
    have len: "length (rooted (kept @ [e])) = w + length e"
      using kne w1 by (simp add: rooted_def join_segments_def)
    have "realElement p buf r w = Inr (buf', r + length e, w + length e)"
      using False c by (simp add: realElement_def)
    moreover have "written buf' p (w + length e) = rooted (kept @ [e])"
      using wc wr kne by (simp add: rooted_def join_segments_def)
    moreover have "w + length e + length p \<le> r + length e + capacity buf' p"
      using sl cc by simp
    moreover have "r + length e \<le> length p"
      using e(1) r by (simp add: elem_def) (metis length_drop length_takeWhile_le le_diff_conv2 less_imp_le add.commute)
    ultimately show ?thesis
      using v' cc sl by (auto simp: loop_inv_def len)
  qed
qed

subsection \<open>The loop\<close>

definition loop_post :: "string \<Rightarrow> string option \<Rightarrow> nat \<Rightarrow> string list \<Rightarrow> bool \<Rightarrow> bool" where
  "loop_post p buf w kept tr =
     (written buf p w = rooted kept \<and> length (rooted kept) = w \<and> w \<le> capacity buf p \<and>
      (tr \<and> 1 < w \<longrightarrow> w < capacity buf p) \<and> valid_kept kept)"

lemma cleanLoop_stop: "length p \<le> r \<Longrightarrow> cleanLoop p buf r w tr = Inr (buf, r, w, tr)"
  by (subst cleanLoop.simps) simp

lemma cleanLoop_step:
  "r < length p \<Longrightarrow> loopBody p buf r w tr = Inr (buf', r', w', tr') \<Longrightarrow>
   cleanLoop p buf r w tr = cleanLoop p buf' r' w' tr'"
  by (subst cleanLoop.simps) simp

lemma rest_cases:
  obtains (stop) "rest = []"
  | (slash) t where "rest = CHR ''/'' # t"
  | (dot_end) "rest = ''.''"
  | (dot_slash) t where "rest = CHR ''.'' # CHR ''/'' # t"
  | (dotdot_end) "rest = ''..''"
  | (dotdot_slash) t where "rest = CHR ''.'' # CHR ''.'' # CHR ''/'' # t"
  | (elem_end) "elem rest \<noteq> []" "elem rest \<noteq> ''.''" "elem rest \<noteq> ''..''" "rest = elem rest"
  | (elem_slash) t where "elem rest \<noteq> []" "elem rest \<noteq> ''.''" "elem rest \<noteq> ''..''"
      "rest = elem rest @ CHR ''/'' # t"
proof -
  have ea: "rest = elem rest @ after rest" by (rule elem_after)
  from after_cases [of rest] show ?thesis
  proof
    assume a: "after rest = []"
    with ea have r: "rest = elem rest" by simp
    show ?thesis
    proof (cases "elem rest = [] \<or> elem rest = ''.'' \<or> elem rest = ''..''")
      case True
      with r stop dot_end dotdot_end show ?thesis by metis
    next
      case False
      with r elem_end show ?thesis by blast
    qed
  next
    assume "\<exists>t. after rest = CHR ''/'' # t"
    then obtain t where "after rest = CHR ''/'' # t" ..
    with ea have r: "rest = elem rest @ CHR ''/'' # t" by simp
    show ?thesis
    proof (cases "elem rest = [] \<or> elem rest = ''.'' \<or> elem rest = ''..''")
      case True
      with r slash [of t] dot_slash [of t] dotdot_slash [of t] show ?thesis
        by (metis append_Cons append_Nil)
    next
      case False
      with r elem_slash show ?thesis by blast
    qed
  qed
qed

lemma apply_segment_simps:
  "apply_segment kept [] = kept"
  "apply_segment kept ''.'' = kept"
  "apply_segment kept ''..'' = butlast kept"
  "e \<noteq> [] \<Longrightarrow> e \<noteq> ''.'' \<Longrightarrow> e \<noteq> ''..'' \<Longrightarrow> apply_segment kept e = kept @ [e]"
  by (simp_all add: apply_segment_def)

lemma drop_Cons_Suc: "drop r p = c # t \<Longrightarrow> drop (Suc r) p = t"
  by (metis drop_Suc list.sel(3) tl_drop)

lemma drop_append_length: "drop r p = e @ t \<Longrightarrow> drop (r + length e) p = t"
  by (metis add.commute append_eq_conv_conj drop_drop)

lemma drop_last: "drop r p = rest \<Longrightarrow> rest \<noteq> [] \<Longrightarrow> last p = last rest \<and> p \<noteq> []"
  by (metis drop_eq_Nil2 last_drop leI list.size(3) not_less_zero drop_Nil)

lemma cleanLoop_ok:
  assumes "loop_inv p buf r w kept" "room p buf r w" "tr \<longrightarrow> p \<noteq> [] \<and> last p = CHR ''/''"
  shows "\<exists>buf' r' w'.
           cleanLoop p buf r w tr = Inr (buf', r', w', tr \<or> last (segments (drop r p)) = ''.'')
         \<and> loop_post p buf' w' (foldl apply_segment kept (segments (drop r p)))
              (tr \<or> last (segments (drop r p)) = ''.'')"
  using assms
proof (induction "length p - r" arbitrary: buf r w kept rule: less_induct)
  case less
  note inv = less.prems(1) and room = less.prems(2) and tr = less.prems(3)
  from inv have wr: "written buf p w = rooted kept" and w: "length (rooted kept) = w"
    and v: "valid_kept kept" and sl: "w + length p \<le> r + capacity buf p"
    and rle: "r \<le> length p"
    by (simp_all add: loop_inv_def)
  define rest where "rest = drop r p"
  then have d: "drop r p = rest" by simp
  have rlt: "r < length p" if "rest \<noteq> []" using that d by auto
  have notr: "\<not> tr" if "rest \<noteq> []" "last rest \<noteq> CHR ''/''"
    using drop_last [OF d that(1)] that(2) tr by auto
  show ?case
  proof (cases rest rule: rest_cases)
    case stop
    with d rle have "length p \<le> r" by simp
    then have "cleanLoop p buf r w tr = Inr (buf, r, w, tr)" by (rule cleanLoop_stop)
    moreover have "loop_post p buf w kept tr"
      using wr w v sl room rle \<open>length p \<le> r\<close> by (auto simp: loop_post_def room_def)
    ultimately show ?thesis
      unfolding d stop by (simp add: apply_segment_simps)
  next
    case (slash t)
    with rlt have r: "r < length p" by simp
    from d slash have dt: "drop (Suc r) p = t" by (simp add: drop_Cons_Suc)
    have step: "cleanLoop p buf r w tr = cleanLoop p buf (Suc r) w tr"
      using cleanLoop_step [OF r] loopBody_slash [of r p t buf w tr] d slash by simp
    have "loop_inv p buf (Suc r) w kept" "room p buf (Suc r) w"
      using wr w v sl r room by (auto simp: loop_inv_def room_def)
    from less.hyps [OF _ this tr] r
    show ?thesis
      unfolding d slash dt step by (simp add: apply_segment_simps)
  next
    case dot_end
    with rlt have r: "r < length p" by simp
    from drop_facts(1) [OF d] dot_end have n: "length p = Suc r" by simp
    have "cleanLoop p buf r w tr = cleanLoop p buf (Suc r) w True"
      using cleanLoop_step [OF r] loopBody_dot_end [of r p buf w tr] d dot_end by simp
    also have "\<dots> = Inr (buf, Suc r, w, True)"
      using n by (simp add: cleanLoop_stop)
    finally have "cleanLoop p buf r w tr = Inr (buf, Suc r, w, True)" .
    moreover have "loop_post p buf w kept True"
      using wr w v sl n by (auto simp: loop_post_def)
    ultimately show ?thesis
      unfolding d dot_end by (simp add: apply_segment_simps)
  next
    case (dot_slash t)
    with rlt have r: "r < length p" by simp
    from drop_facts(1) [OF d] dot_slash have n: "Suc (Suc r) \<le> length p" by simp
    from d dot_slash have dt: "drop (Suc (Suc r)) p = t"
      by (simp add: drop_Cons_Suc)
    have step: "cleanLoop p buf r w tr = cleanLoop p buf (Suc (Suc r)) w tr"
      using cleanLoop_step [OF r] loopBody_dot_slash [of r p t buf w tr] d dot_slash by simp
    have "loop_inv p buf (Suc (Suc r)) w kept" "room p buf (Suc (Suc r)) w"
      using wr w v sl n room by (auto simp: loop_inv_def room_def)
    from less.hyps [OF _ this tr] r
    show ?thesis
      unfolding d dot_slash dt step by (simp add: apply_segment_simps)
  next
    case dotdot_end
    with rlt have r: "r < length p" by simp
    from drop_facts(1) [OF d] dotdot_end have n: "length p = Suc (Suc r)" by simp
    from notr dotdot_end have ntr: "\<not> tr" by simp
    from sl rle have cap: "w \<le> capacity buf p" by simp
    from dotdotElement_ok [OF wr w [symmetric] cap v]
    have dd: "dotdotElement p buf w = Inr (length (rooted (butlast kept)))"
      and wr': "written buf p (length (rooted (butlast kept))) = rooted (butlast kept)"
      and le: "length (rooted (butlast kept)) \<le> w" by simp_all
    have "loopBody p buf r w tr = Inr (buf, r + 3, length (rooted (butlast kept)), tr)"
      using loopBody_dotdot_end [of r p buf w tr] d dotdot_end dd by (simp add: dotdotCase_def)
    from cleanLoop_step [OF r this]
    have "cleanLoop p buf r w tr = Inr (buf, r + 3, length (rooted (butlast kept)), tr)"
      using n by (simp add: cleanLoop_stop)
    moreover have "loop_post p buf (length (rooted (butlast kept))) (butlast kept) tr"
      using wr' le cap ntr valid_kept_butlast [OF v] by (auto simp: loop_post_def)
    ultimately show ?thesis
      unfolding d dotdot_end by (simp add: apply_segment_simps)
  next
    case (dotdot_slash t)
    with rlt have r: "r < length p" by simp
    from drop_facts(1) [OF d] dotdot_slash have n: "r + 3 \<le> length p" by simp
    from d dotdot_slash have dt: "drop (r + 3) p = t"
      using drop_append_length [of r p "''../''" t] by (simp add: eval_nat_numeral)
    from sl rle have cap: "w \<le> capacity buf p" by simp
    from dotdotElement_ok [OF wr w [symmetric] cap v]
    have dd: "dotdotElement p buf w = Inr (length (rooted (butlast kept)))"
      and wr': "written buf p (length (rooted (butlast kept))) = rooted (butlast kept)"
      and le: "length (rooted (butlast kept)) \<le> w" by simp_all
    have "loopBody p buf r w tr = Inr (buf, r + 3, length (rooted (butlast kept)), tr)"
      using loopBody_dotdot_slash [of r p t buf w tr] d dotdot_slash dd
      by (simp add: dotdotCase_def)
    from cleanLoop_step [OF r this]
    have step: "cleanLoop p buf r w tr = cleanLoop p buf (r + 3) (length (rooted (butlast kept))) tr" .
    have "loop_inv p buf (r + 3) (length (rooted (butlast kept))) (butlast kept)"
      "room p buf (r + 3) (length (rooted (butlast kept)))"
      using wr' le sl n valid_kept_butlast [OF v] by (auto simp: loop_inv_def room_def)
    from less.hyps [OF _ this tr] r
    show ?thesis
      unfolding d dotdot_slash dt step by (simp add: apply_segment_simps)
  next
    case elem_end
    define e where "e = elem rest"
    from elem_end have ne: "rest \<noteq> []" by auto
    with rlt have r: "r < length p" by simp
    from drop_facts(1) [OF d ne] elem_end(4) have n: "length p = r + length e"
      by (simp add: e_def)
    have "last rest \<in> set (elem rest)" using elem_end(1,4) by (metis last_in_set)
    with elem_slash_free [of rest] have "last rest \<noteq> CHR ''/''" by auto
    from notr [OF ne this] have ntr: "\<not> tr" .
    from realElement_ok [OF inv room r, of e] elem_end(1) d obtain buf' where
      re: "realElement p buf r w = Inr (buf', r + length e, length (rooted (kept @ [e])))"
      and inv': "loop_inv p buf' (r + length e) (length (rooted (kept @ [e]))) (kept @ [e])"
      by (auto simp: e_def)
    have "loopBody p buf r w tr = Inr (buf', r + length e, length (rooted (kept @ [e])), tr)"
      using loopBody_default [OF d elem_end(1,2,3)] re by (simp add: defaultCase_def)
    from cleanLoop_step [OF r this]
    have "cleanLoop p buf r w tr = Inr (buf', r + length e, length (rooted (kept @ [e])), tr)"
      using n by (simp add: cleanLoop_stop)
    moreover have "loop_post p buf' (length (rooted (kept @ [e]))) (kept @ [e]) tr"
      using inv' ntr n by (auto simp: loop_post_def loop_inv_def)
    moreover have "segments rest = [e]"
      using segments_elem [OF elem_slash_free [of rest]] elem_end(4) by (simp add: e_def)
    ultimately show ?thesis
      unfolding d using elem_end(1,2,3) by (simp add: apply_segment_simps e_def)
  next
    case (elem_slash t)
    define e where "e = elem rest"
    from elem_slash have ne: "rest \<noteq> []" by auto
    with rlt have r: "r < length p" by simp
    from elem_slash(4) have rest: "rest = e @ CHR ''/'' # t" by (simp add: e_def)
    from drop_facts(1) [OF d ne] rest have n: "r + length e < length p" by simp
    from d rest have d1: "drop (r + length e) p = CHR ''/'' # t"
      by (simp add: drop_append_length)
    then have dt: "drop (Suc (r + length e)) p = t" by (rule drop_Cons_Suc)
    from realElement_ok [OF inv room r, of e] elem_slash(1) d obtain buf' where
      re: "realElement p buf r w = Inr (buf', r + length e, length (rooted (kept @ [e])))"
      and inv': "loop_inv p buf' (r + length e) (length (rooted (kept @ [e]))) (kept @ [e])"
      and room': "length (rooted (kept @ [e])) + length p < Suc (r + length e) + capacity buf' p"
      by (auto simp: e_def)
    have "loopBody p buf r w tr = Inr (buf', r + length e, length (rooted (kept @ [e])), tr)"
      using loopBody_default [OF d elem_slash(1,2,3)] re by (simp add: defaultCase_def)
    from cleanLoop_step [OF r this]
    have "cleanLoop p buf r w tr = cleanLoop p buf' (r + length e) (length (rooted (kept @ [e]))) tr" .
    also have "\<dots> = cleanLoop p buf' (Suc (r + length e)) (length (rooted (kept @ [e]))) tr"
      using cleanLoop_step [OF n] loopBody_slash [OF d1] by simp
    finally have step:
      "cleanLoop p buf r w tr = cleanLoop p buf' (Suc (r + length e)) (length (rooted (kept @ [e]))) tr" .
    have "loop_inv p buf' (Suc (r + length e)) (length (rooted (kept @ [e]))) (kept @ [e])"
      "room p buf' (Suc (r + length e)) (length (rooted (kept @ [e])))"
      using inv' room' n by (auto simp: loop_inv_def room_def)
    moreover have seg: "segments rest = e # segments t"
      unfolding rest using elem_slash_free [of rest] by (simp add: segments_elem_slash e_def)
    ultimately show ?thesis
      using less.hyps [of "Suc (r + length e)" buf' "length (rooted (kept @ [e]))" "kept @ [e]"] tr r
        elem_slash(1,2,3)
      unfolding d dt step seg by (simp add: apply_segment_simps e_def)
  qed
qed

subsection \<open>The result\<close>

lemma appendTrailing_ok:
  assumes "loop_post p buf w kept tr"
  shows "\<exists>buf2 w2. appendTrailing p buf w tr = Inr (buf2, w2) \<and> w2 \<le> capacity buf2 p \<and>
           written buf2 p w2 =
             (if kept = [] then ''/'' else join_segments kept @ (if tr then ''/'' else []))"
proof -
  from assms have wr: "written buf p w = rooted kept" and w: "length (rooted kept) = w"
    and cap: "w \<le> capacity buf p" and tight: "tr \<and> 1 < w \<longrightarrow> w < capacity buf p"
    and v: "valid_kept kept"
    by (simp_all add: loop_post_def)
  have k: "(1 < w) = (kept \<noteq> [])" using length_rooted_gt1 [OF v] w by simp
  show ?thesis
  proof (cases "tr \<and> 1 < w")
    case True
    with tight have "w < capacity buf p" by simp
    from bufApp_ok [OF this, of "CHR ''/''"] obtain b where
      b: "bufApp buf p w (CHR ''/'') = Inr b"
      and wb: "written b p (Suc w) = written buf p w @ [CHR ''/'']"
      and cb: "capacity b p = capacity buf p" by blast
    from True b have "appendTrailing p buf w tr = Inr (b, Suc w)"
      by (simp add: appendTrailing_def)
    moreover from \<open>w < capacity buf p\<close> cb have "Suc w \<le> capacity b p" by simp
    moreover from wb wr True k have
      "written b p (Suc w) = (if kept = [] then ''/'' else join_segments kept @ (if tr then ''/'' else []))"
      by (simp add: rooted_def)
    ultimately show ?thesis by blast
  next
    case False
    then have "appendTrailing p buf w tr = Inr (buf, w)"
      by (auto simp: appendTrailing_def)
    moreover from wr False k have
      "written buf p w = (if kept = [] then ''/'' else join_segments kept @ (if tr then ''/'' else []))"
      by (auto simp: rooted_def)
    ultimately show ?thesis using cap by blast
  qed
qed

lemma sliceTo_written:
  "w \<le> capacity buf p \<Longrightarrow>
   (case buf of None \<Rightarrow> sliceTo p w | Some b \<Rightarrow> sliceTo b w) = Inr (written buf p w)"
  by (cases buf) (simp_all add: sliceTo_def written_def capacity_def)

lemma CleanPath_from_loop:
  assumes ne: "p \<noteq> []"
    and init: "(if p ! 0 \<noteq> CHR ''/''
                then (Some ((replicate (length p + 1) (CHR 0x00))[0 := CHR ''/'']), 0)
                else (None, 1)) = (buf, r)"
    and loop: "cleanLoop p buf r 1 (length p > 1 \<and> p ! (length p - 1) = CHR ''/'') = Inr (buf', r', w', tr')"
    and post: "loop_post p buf' w' kept tr'"
  shows "CleanPath p = Inr (if kept = [] then ''/'' else join_segments kept @ (if tr' then ''/'' else []))"
proof -
  from appendTrailing_ok [OF post] obtain buf2 w2 where
    a: "appendTrailing p buf' w' tr' = Inr (buf2, w2)" and c: "w2 \<le> capacity buf2 p"
    and wr: "written buf2 p w2 =
             (if kept = [] then ''/'' else join_segments kept @ (if tr' then ''/'' else []))"
    by blast
  from sliceTo_written [OF c] wr ne init loop a show ?thesis
    by (simp add: CleanPath_def Let_def del: replicate.simps)
qed

lemma CleanPath_normalize: "CleanPath p = Inr (normalize_path p)"
proof (cases p)
  case Nil
  then show ?thesis by (simp add: CleanPath_def normalize_path_def)
next
  case (Cons c t)
  define tr0 where "tr0 = (length p > 1 \<and> p ! (length p - 1) = CHR ''/'')"
  have tr0: "tr0 \<longrightarrow> p \<noteq> [] \<and> last p = CHR ''/''"
    using Cons by (auto simp: tr0_def last_conv_nth)
  have tr0': "tr0 = (t \<noteq> [] \<and> last p = CHR ''/'')"
    using Cons by (auto simp: tr0_def last_conv_nth)
  show ?thesis
  proof (cases "c = CHR ''/''")
    case True
    have "loop_inv p None 1 1 []" "room p None 1 1"
      using Cons True by (simp_all add: loop_inv_def room_def written_def rooted_def
          valid_kept_def capacity_def)
    from cleanLoop_ok [OF this tr0] obtain buf' r' w' where
      loop: "cleanLoop p None 1 1 tr0 = Inr (buf', r', w', tr0 \<or> last (segments (drop 1 p)) = ''.'')"
      and post: "loop_post p buf' w' (foldl apply_segment [] (segments (drop 1 p)))
              (tr0 \<or> last (segments (drop 1 p)) = ''.'')" by blast
    have init: "(if p ! 0 \<noteq> CHR ''/''
                then (Some ((replicate (length p + 1) (CHR 0x00))[0 := CHR ''/'']), 0)
                else (None, 1)) = (None, 1)" using Cons True by simp
    have ks: "kept_segments p = foldl apply_segment [] (segments (drop 1 p))"
      using Cons True by (simp add: kept_segments_def apply_segment_simps)
    have "kept_segments p \<noteq> [] \<Longrightarrow> t \<noteq> []"
      using Cons True by (auto simp: kept_segments_def apply_segment_simps)
    then have tr: "kept_segments p \<noteq> [] \<Longrightarrow>
        (tr0 \<or> last (segments (drop 1 p)) = ''.'') = trailing_slash p"
      using Cons True last_segments_Nil [of t]
      by (auto simp: trailing_slash_def tr0')
    from CleanPath_from_loop [OF _ init loop [unfolded tr0_def] post [unfolded tr0_def]] Cons
    show ?thesis
      using tr unfolding ks [symmetric] tr0_def normalize_path_def by auto
  next
    case False
    define b where "b = (replicate (length p + 1) (CHR 0x00))[0 := CHR ''/'']"
    have "loop_inv p (Some b) 0 1 []" "room p (Some b) 0 1"
      by (simp_all add: loop_inv_def room_def written_def rooted_def
          valid_kept_def capacity_def b_def)
    from cleanLoop_ok [OF this tr0] obtain buf' r' w' where
      loop: "cleanLoop p (Some b) 0 1 tr0 = Inr (buf', r', w', tr0 \<or> last (segments (drop 0 p)) = ''.'')"
      and post: "loop_post p buf' w' (foldl apply_segment [] (segments (drop 0 p)))
              (tr0 \<or> last (segments (drop 0 p)) = ''.'')" by blast
    have init: "(if p ! 0 \<noteq> CHR ''/''
                then (Some ((replicate (length p + 1) (CHR 0x00))[0 := CHR ''/'']), 0)
                else (None, 1)) = (Some b, 0)" using Cons False by (simp add: b_def)
    have ks: "kept_segments p = foldl apply_segment [] (segments (drop 0 p))"
      by (simp add: kept_segments_def)
    have "last p = CHR ''/'' \<Longrightarrow> t \<noteq> []" using Cons False by auto
    then have tr: "(tr0 \<or> last (segments (drop 0 p)) = ''.'') = trailing_slash p"
      using Cons last_segments_Nil [of p]
      by (auto simp: trailing_slash_def tr0')
    from CleanPath_from_loop [OF _ init loop [unfolded tr0_def] post [unfolded tr0_def]] Cons
    show ?thesis
      using tr unfolding ks [symmetric] tr0_def normalize_path_def by auto
  qed
qed

subsection \<open>The normalization on its own results\<close>

definition clean_kept :: "string list \<Rightarrow> bool" where
  "clean_kept kept = (\<forall>s\<in>set kept. s \<noteq> [] \<and> s \<noteq> ''.'' \<and> s \<noteq> ''..'' \<and> CHR ''/'' \<notin> set s)"

lemma clean_kept_apply:
  "clean_kept kept \<Longrightarrow> CHR ''/'' \<notin> set s \<Longrightarrow> clean_kept (apply_segment kept s)"
  by (auto simp: clean_kept_def apply_segment_def dest: in_set_butlastD)

lemma clean_kept_foldl:
  "clean_kept kept \<Longrightarrow> \<forall>s\<in>set segs. CHR ''/'' \<notin> set s \<Longrightarrow>
   clean_kept (foldl apply_segment kept segs)"
  by (induction segs arbitrary: kept) (simp_all add: clean_kept_apply)

lemma clean_kept_segments: "clean_kept (kept_segments p)"
  unfolding kept_segments_def
  by (rule clean_kept_foldl) (auto simp: clean_kept_def dest: segments_slash_free)

lemma clean_kept_valid: "clean_kept ks \<Longrightarrow> valid_kept ks"
  by (simp add: clean_kept_def valid_kept_def)

lemma segments_tl_join:
  "valid_kept (s # ks) \<Longrightarrow> segments (tl (join_segments (s # ks))) = s # ks"
proof (induction ks arbitrary: s)
  case Nil
  then show ?case by (simp add: join_segments_def valid_kept_def segments_elem)
next
  case (Cons k ks)
  from Cons.prems have "valid_kept (k # ks)" "CHR ''/'' \<notin> set s"
    by (simp_all add: valid_kept_def)
  with Cons.IH [of k] show ?case
    by (simp add: join_segments_Cons segments_elem_slash)
qed

lemma join_segments_segments: "join_segments (segments t) = CHR ''/'' # t"
proof (induction t)
  case Nil
  then show ?case by (simp add: join_segments_def)
next
  case (Cons c cs)
  obtain s ss where s: "segments cs = s # ss" by (cases "segments cs") simp_all
  with Cons show ?case by (simp add: join_segments_Cons)
qed

lemma foldl_apply_clean:
  "\<forall>s\<in>set xs. s \<noteq> [] \<and> s \<noteq> ''.'' \<and> s \<noteq> ''..'' \<Longrightarrow>
   foldl apply_segment kept xs = kept @ xs"
  by (induction xs arbitrary: kept) (simp_all add: apply_segment_def)

lemma normalize_canonical: "canonical (normalize_path p)"
proof (cases "p = [] \<or> kept_segments p = []")
  case True
  then show ?thesis by (auto simp: normalize_path_def canonical_def)
next
  case False
  then obtain s ks where k: "kept_segments p = s # ks" by (cases "kept_segments p") auto
  from clean_kept_segments [of p] k have c: "clean_kept (s # ks)" by simp
  then have v: "valid_kept (s # ks)" by (rule clean_kept_valid)
  have j: "join_segments (s # ks) = CHR ''/'' # tl (join_segments (s # ks))"
    by (simp add: join_segments_Cons)
  show ?thesis
  proof (cases "trailing_slash p")
    case True
    with False k have n: "normalize_path p = join_segments (s # ks) @ ''/''"
      by (simp add: normalize_path_def)
    have "tl (normalize_path p) = tl (join_segments (s # ks)) @ ''/''"
      unfolding n by (simp add: join_segments_Cons)
    then have "segments (tl (normalize_path p)) = (s # ks) @ [[]]"
      using segments_tl_join [OF v] by (simp add: segments_snoc_slash)
    with c n show ?thesis
      by (auto simp: canonical_def clean_kept_def join_segments_Cons)
  next
    case nt: False
    with False k have n: "normalize_path p = join_segments (s # ks)"
      by (simp add: normalize_path_def)
    with segments_tl_join [OF v] have "segments (tl (normalize_path p)) = s # ks" by simp
    with c n show ?thesis
      by (auto simp: canonical_def clean_kept_def join_segments_Cons dest: in_set_butlastD)
  qed
qed

lemma normalize_id:
  assumes "canonical p"
  shows "normalize_path p = p"
proof -
  from assms obtain t where p: "p = CHR ''/'' # t" by (cases p) (auto simp: canonical_def)
  define xs where "xs = butlast (segments t)"
  define l where "l = last (segments t)"
  have seg: "segments t = xs @ [l]" by (simp add: xs_def l_def)
  from assms p have xs: "\<forall>s\<in>set xs. s \<noteq> [] \<and> s \<noteq> ''.'' \<and> s \<noteq> ''..''"
    and l: "l \<noteq> ''.''" "l \<noteq> ''..''"
    by (auto simp: canonical_def xs_def l_def dest: in_set_butlastD)
  have ks: "kept_segments p = xs @ (if l = [] then [] else [l])"
    using p seg xs l by (simp add: kept_segments_def apply_segment_simps foldl_apply_clean)
  have tr: "trailing_slash p = (l = [])"
    using p seg l by (simp add: trailing_slash_def)
  have j: "join_segments (xs @ [l]) = p"
    using join_segments_segments [of t] p seg by simp
  show ?thesis
  proof (cases "l = []")
    case True
    with j have "join_segments xs @ ''/'' = p" by (simp add: join_segments_snoc)
    with ks tr True p show ?thesis
      by (auto simp: normalize_path_def join_segments_Nil)
  next
    case False
    with ks tr j p show ?thesis by (simp add: normalize_path_def)
  qed
qed

lemma normalize_slash: "normalize_path (CHR ''/'' # p) = normalize_path p"
proof -
  have "kept_segments (CHR ''/'' # p) = kept_segments p"
    by (simp add: kept_segments_def apply_segment_simps)
  moreover have "trailing_slash (CHR ''/'' # p) = trailing_slash p"
    by (simp add: trailing_slash_def)
  moreover have "p = [] \<Longrightarrow> kept_segments p = []"
    by (simp add: kept_segments_def apply_segment_simps)
  ultimately show ?thesis by (auto simp: normalize_path_def)
qed

lemma normalize_rooted: "\<exists>s. normalize_path p = CHR ''/'' # s"
  by (cases "kept_segments p") (auto simp: normalize_path_def join_segments_Cons)

lemma trailing_slash_last: "p \<noteq> [] \<Longrightarrow> last p = CHR ''/'' \<Longrightarrow> trailing_slash p"
  by (simp add: trailing_slash_def last_segments_Nil)

lemma trailing_slash_dot: "trailing_slash ''.''" "trailing_slash (q @ ''/.'')"
proof -
  show "trailing_slash ''.''" by (simp add: trailing_slash_def)
  have "q @ ''/.'' = (q @ ''/'') @ ''.''" by simp
  then have "last (segments (q @ ''/.'')) = last (segments (q @ ''/'')) @ ''.''"
    by (simp only: last_segments_snoc) simp
  then show "trailing_slash (q @ ''/.'')"
    by (simp add: trailing_slash_def last_segments_snoc)
qed

lemma normalize_trailing: "trailing_slash p \<Longrightarrow> \<exists>s. normalize_path p = s @ ''/''"
  by (auto simp: normalize_path_def) 

section \<open>The route tree keeps and finds the registered routes\<close>

text \<open>
  The routes of a tree: the pieces from a node down to each handler, with the handler.
  A well-formed tree has, under every node, either one wildcard child or static children
  with non-empty prefixes and different first bytes; a catch-all node has no children.
\<close>

definition label :: "'h node \<Rightarrow> piece list" where
  "label n =
     (case kind n of
        Static \<Rightarrow> map Lit (prefix n)
      | Parameter \<Rightarrow> [Par (prefix n)]
      | CatchAll \<Rightarrow> [Cat (prefix n)])"

fun routes :: "'h node \<Rightarrow> (piece list \<times> 'h) set" where
  "routes (Node pre knd cs wild hnd cnt) =
     (case hnd of None \<Rightarrow> {} | Some h \<Rightarrow> {(label (Node pre knd cs wild hnd cnt), h)}) \<union>
     (\<Union>c\<in>set cs. (\<lambda>(ps, h). (label (Node pre knd cs wild hnd cnt) @ ps, h)) ` routes c)"

definition firstBytes :: "'h node list \<Rightarrow> char list" where
  "firstBytes cs = map (\<lambda>c. hd (prefix c)) cs"

fun wfNode :: "'h node \<Rightarrow> bool" where
  "wfNode (Node pre knd cs wild hnd cnt) =
     ((\<forall>c\<in>set cs. wfNode c) \<and>
      (if wild then (\<exists>c. cs = [c] \<and> kind c \<noteq> Static)
       else (\<forall>c\<in>set cs. kind c = Static \<and> prefix c \<noteq> []) \<and> distinct (firstBytes cs)) \<and>
      (knd = CatchAll \<longrightarrow> cs = []))"

fun catchAllLast :: "piece list \<Rightarrow> bool" where
  "catchAllLast [] = True"
| "catchAllLast (Cat name # ps) = (ps = [])"
| "catchAllLast (p # ps) = catchAllLast ps"

subsection \<open>Lookup in a well-formed tree\<close>

lemma matchPath_nonempty: "matchPath ps path = Some qs \<Longrightarrow> ps \<noteq> [] \<Longrightarrow> path \<noteq> []"
  by (cases ps; cases "hd ps") (auto simp: Let_def split: if_splits list.splits)

lemma matchPath_Lit_hd: "matchPath (Lit d # ps) path = Some qs \<Longrightarrow> hd path = d"
  by (cases path) (auto split: if_splits)

lemma matchPath_literals:
  "matchPath (map Lit pre @ ps) path = Some qs \<longleftrightarrow>
   take (length pre) path = pre \<and> matchPath ps (drop (length pre) path) = Some qs"
proof (induction pre arbitrary: path)
  case Nil
  then show ?case by simp
next
  case (Cons c pre)
  then show ?case by (cases path) auto
qed

lemma consume_matchPath:
  assumes "matchPath (label n @ ps) path = Some qs"
  shows "\<exists>rest ops qs'. consume n path = Some (rest, ops) \<and> matchPath ps rest = Some qs' \<and> qs = ops @ qs'"
proof (cases "kind n")
  case Static
  with assms show ?thesis
    by (simp add: label_def consume_def matchPath_literals)
next
  case Parameter
  with assms show ?thesis
    by (auto simp: label_def consume_def Let_def split: if_splits option.splits)
next
  case CatchAll
  with assms show ?thesis
    by (auto simp: label_def consume_def split: if_splits)
qed

lemma label_nonempty: "kind c \<noteq> Static \<or> prefix c \<noteq> [] \<Longrightarrow> label c \<noteq> []"
  by (cases "kind c") (auto simp: label_def)

lemma routes_label: "(ps, h) \<in> routes n \<Longrightarrow> \<exists>ps'. ps = label n @ ps'"
  by (cases n) (auto split: option.splits)

lemma descendStatic_unique:
  assumes "c \<in> set cs" "firstByte c (hd path)"
    "\<forall>c'\<in>set cs. firstByte c' (hd path) \<longrightarrow> c' = c"
  shows "descendStatic cs path = descend c path"
  using assms
proof (induction cs)
  case Nil
  then show ?case by simp
next
  case (Cons a cs)
  show ?case
  proof (cases "firstByte a (hd path)")
    case True
    with Cons.prems(3) have "a = c" by simp
    with True show ?thesis by simp
  next
    case False
    with Cons.prems(1,2) have "c \<in> set cs" by auto
    from Cons.IH [OF this Cons.prems(2)] Cons.prems(3) False show ?thesis by simp
  qed
qed

lemma firstByte_distinct:
  assumes "distinct (firstBytes cs)" "c \<in> set cs" "c' \<in> set cs"
    "firstByte c d" "firstByte c' d"
  shows "c' = c"
proof -
  from assms(4,5) have "hd (prefix c) = hd (prefix c')" by (simp add: firstByte_def)
  with assms(1,2,3) show ?thesis
    by (auto simp: firstBytes_def distinct_map dest: inj_onD)
qed

lemma descend_registered:
  assumes "wfNode n" "(ps, h) \<in> routes n" "matchPath ps path = Some qs"
  shows "descend n path = Some (h, qs)"
  using assms
proof (induction n arbitrary: ps path qs)
  case (Node pre knd cs wild hnd cnt)
  let ?n = "Node pre knd cs wild hnd cnt"
  from routes_label [OF Node.prems(2)] obtain ps' where ps: "ps = label ?n @ ps'" by blast
  from consume_matchPath [OF Node.prems(3) [unfolded ps]] obtain rest o' qs' where
    consume: "consume ?n path = Some (rest, o')" and m: "matchPath ps' rest = Some qs'"
    and qs: "qs = o' @ qs'" by blast
  have child_label: "label c \<noteq> []" if "c \<in> set cs" for c
  proof -
    from Node.prems(1) that have "kind c \<noteq> Static \<or> prefix c \<noteq> []"
      by (cases wild) auto
    then show ?thesis by (rule label_nonempty)
  qed
  show ?case
  proof (cases "ps' = []")
    case True
    with m have rest: "rest = []" by (simp split: if_splits)
    from True m have qs': "qs' = []" by (simp split: if_splits)
    have "hnd = Some h"
    proof (rule ccontr)
      assume "hnd \<noteq> Some h"
      with Node.prems(2) ps True obtain c ps'' where c: "c \<in> set cs"
        and r: "(ps'', h) \<in> routes c" and e: "label ?n @ ps'' = label ?n"
        by (auto split: option.splits)
      from e have "ps'' = []" by simp
      with routes_label [OF r] have "label c = []" by simp
      with child_label [OF c] show False by simp
    qed
    with consume rest qs qs' show ?thesis by simp
  next
    case False
    with Node.prems(2) ps obtain c where c: "c \<in> set cs" and r: "(ps', h) \<in> routes c"
      by (auto split: option.splits)
    from matchPath_nonempty [OF m False] have rest: "rest \<noteq> []" .
    from Node.prems(1) c have wfc: "wfNode c" by simp
    from Node.IH [OF c wfc r m] have f: "descend c rest = Some (h, qs')" .
    show ?thesis
    proof (cases wild)
      case True
      with Node.prems(1) c have cs: "cs = [c]" and k: "kind c \<noteq> Static" by auto
      then have "descendStatic cs rest = None" by (simp add: firstByte_def)
      moreover from cs k f have "descendWildcard cs rest = Some (h, qs')" by simp
      ultimately show ?thesis using consume rest qs by simp
    next
      case nw: False
      with Node.prems(1) c have k: "kind c = Static" and p: "prefix c \<noteq> []"
        and d: "distinct (firstBytes cs)" by auto
      from routes_label [OF r] k p obtain ps'' where "ps' = Lit (hd (prefix c)) # ps''"
        by (cases "prefix c") (auto simp: label_def)
      with m have "matchPath (Lit (hd (prefix c)) # ps'') rest = Some qs'" by (simp only:)
      then have "hd rest = hd (prefix c)" by (rule matchPath_Lit_hd)
      with k p have fb: "firstByte c (hd rest)" by (simp add: firstByte_def)
      have uniq: "\<forall>c'\<in>set cs. firstByte c' (hd rest) \<longrightarrow> c' = c"
        using firstByte_distinct [OF d c _ fb] by blast
      have "descendStatic cs rest = descend c rest"
        by (rule descendStatic_unique [OF c fb uniq])
      with f consume rest qs show ?thesis by simp
    qed
  qed
qed

subsection \<open>Building and splitting\<close>

lemma lcp_le: "lcp pre ps \<le> length pre" "lcp pre ps \<le> length ps"
  by (induction pre ps rule: lcp.induct) auto

lemma lcp_take: "take (lcp pre ps) ps = map Lit (take (lcp pre ps) pre)"
  by (induction pre ps rule: lcp.induct) auto

lemma lcp_maximal:
  "lcp pre ps < length pre \<Longrightarrow> drop (lcp pre ps) ps = Lit d # t \<Longrightarrow> d \<noteq> pre ! lcp pre ps"
  by (induction pre ps rule: lcp.induct) (auto split: if_splits)

lemma lcp_positive: "pre \<noteq> [] \<Longrightarrow> 0 < lcp pre (Lit (hd pre) # t)"
  by (cases pre) auto

lemma lcp_split: "ps = map Lit (take (lcp pre ps) pre) @ drop (lcp pre ps) ps"
  using lcp_take [of pre ps] by (metis append_take_drop_id)

lemma catchAllLast_append: "catchAllLast (xs @ ys) \<Longrightarrow> ys \<noteq> [] \<Longrightarrow> catchAllLast ys"
  by (induction xs rule: catchAllLast.induct) auto

lemma literals_split: "ps = map Lit (literals ps) @ drop (length (literals ps)) ps"
  by (induction ps rule: literals.induct) auto

lemma literals_rest:
  "drop (length (literals ps)) ps = p # t \<Longrightarrow> (\<exists>name. p = Par name) \<or> (\<exists>name. p = Cat name)"
  by (induction ps rule: literals.induct) auto

lemma set_reorder [simp]: "set (reorder cs) = set cs"
  by (simp add: reorder_def)

lemma firstBytes_reorder: "distinct (firstBytes (reorder cs)) = distinct (firstBytes cs)"
proof -
  have ins: "distinct (map f (insort_key k x xs)) = (f x \<notin> f ` set xs \<and> distinct (map f xs))"
    for f :: "'h node \<Rightarrow> char" and k :: "'h node \<Rightarrow> int" and x xs
    by (induction xs) (auto simp: set_insort_key)
  have "distinct (map f (sort_key k xs)) = distinct (map f xs)"
    for f :: "'h node \<Rightarrow> char" and k :: "'h node \<Rightarrow> int" and xs
    by (induction xs) (simp_all add: ins)
  then show ?thesis by (simp add: reorder_def firstBytes_def)
qed

definition okStatic :: "'h node list \<Rightarrow> bool" where
  "okStatic cs =
     ((\<forall>c\<in>set cs. wfNode c \<and> kind c = Static \<and> prefix c \<noteq> []) \<and> distinct (firstBytes cs))"

lemma okStatic_reorder: "okStatic (reorder cs) = okStatic cs"
  by (simp add: okStatic_def firstBytes_reorder)

lemma wfNode_static_children:
  "wfNode (Node pre knd cs False hnd cnt) = (okStatic cs \<and> (knd = CatchAll \<longrightarrow> cs = []))"
  by (auto simp: okStatic_def)

lemma label_Node: "label (Node pre knd cs wild hnd cnt) = label (Node pre knd cs' wild' hnd' cnt')"
  by (cases knd) (simp_all add: label_def)

lemma build_Lit: "kind (build (Lit d # t) h) = Static \<and> prefix (build (Lit d # t) h) \<noteq> [] \<and>
    hd (prefix (build (Lit d # t) h)) = d"
  by (simp add: Let_def)

lemma build_wildcard: "(\<exists>name. p = Par name) \<or> (\<exists>name. p = Cat name) \<Longrightarrow> kind (build (p # t) h) \<noteq> Static"
  by (auto split: if_splits)

lemma build_props: "catchAllLast ps \<Longrightarrow> wfNode (build ps h) \<and> routes (build ps h) = {(ps, h)}"
proof (induction ps h rule: build.induct)
  case (1 h)
  then show ?case by (simp add: label_def firstBytes_def)
next
  case (2 c ps h)
  define pre where "pre = literals (Lit c # ps)"
  define rest where "rest = drop (length pre) (Lit c # ps)"
  have sp: "Lit c # ps = map Lit pre @ rest"
    unfolding pre_def rest_def by (rule literals_split)
  show ?case
  proof (cases "rest = []")
    case True
    with sp have "build (Lit c # ps) h = Node pre Static [] False (Some h) 1"
      by (simp add: pre_def rest_def Let_def)
    with sp True show ?thesis by (simp add: label_def firstBytes_def)
  next
    case False
    then have b: "build (Lit c # ps) h = Node pre Static [build rest h] True None 1"
      by (simp add: pre_def rest_def Let_def)
    from False "2.prems" sp have "catchAllLast rest" by (metis catchAllLast_append)
    from "2.IH" [OF pre_def rest_def False this]
    have IH: "wfNode (build rest h)" "routes (build rest h) = {(rest, h)}" by simp_all
    from False obtain p t where pt: "rest = p # t" by (cases rest) auto
    with literals_rest [of "Lit c # ps" p t] have w: "(\<exists>name. p = Par name) \<or> (\<exists>name. p = Cat name)"
      by (simp add: rest_def pre_def)
    have "kind (build rest h) \<noteq> Static"
      unfolding pt by (rule build_wildcard [OF w])
    with b IH sp show ?thesis by (simp add: label_def)
  qed
next
  case (3 name ps h)
  show ?case
  proof (cases "ps = []")
    case True
    then show ?thesis by (simp add: label_def firstBytes_def)
  next
    case False
    from "3.prems" have "catchAllLast ps" by simp
    from "3.IH" [OF False this]
    have IH: "wfNode (build ps h)" "routes (build ps h) = {(ps, h)}" by simp_all
    from False obtain p t where pt: "ps = p # t" by (cases ps) auto
    show ?thesis
    proof (cases p)
      case (Lit d)
      have "kind (build ps h) = Static \<and> prefix (build ps h) \<noteq> []"
        unfolding pt Lit using build_Lit [of d t h] by blast
      with IH False pt Lit show ?thesis by (simp add: label_def firstBytes_def)
    next
      case (Par x)
      have "kind (build ps h) \<noteq> Static"
        unfolding pt by (rule build_wildcard) (simp add: Par)
      with IH False pt Par show ?thesis by (simp add: label_def)
    next
      case (Cat x)
      have "kind (build ps h) \<noteq> Static"
        unfolding pt by (rule build_wildcard) (simp add: Cat)
      with IH False pt Cat show ?thesis by (simp add: label_def)
    qed
  qed
next
  case (4 name ps h)
  then show ?case by (simp add: label_def firstBytes_def)
qed

definition good :: "'h node \<Rightarrow> 'h node \<Rightarrow> piece list \<Rightarrow> 'h \<Rightarrow> bool" where
  "good n n' ps h =
     (wfNode n' \<and> routes n' = insert (ps, h) (routes n) \<and> kind n' = kind n \<and>
      (kind n = Static \<longrightarrow> prefix n \<noteq> [] \<longrightarrow> (\<exists>t. ps = Lit (hd (prefix n)) # t) \<longrightarrow>
         prefix n' \<noteq> [] \<and> hd (prefix n') = hd (prefix n)))"

definition goodStatic :: "'h node list \<Rightarrow> 'h node list \<Rightarrow> char \<Rightarrow> piece list \<Rightarrow> 'h \<Rightarrow> bool" where
  "goodStatic cs cs' d rest h =
     (okStatic cs' \<and> (\<Union>c\<in>set cs'. routes c) = insert (rest, h) (\<Union>c\<in>set cs. routes c) \<and>
      set (firstBytes cs') \<subseteq> insert d (set (firstBytes cs)) \<and> cs' \<noteq> [])"

lemma enter_Rest: "enter n ps = Inr (Rest rest) \<Longrightarrow> ps = label n @ rest"
proof (cases "kind n")
  case Static
  assume e: "enter n ps = Inr (Rest rest)"
  with Static have k: "\<not> lcp (prefix n) ps < length (prefix n)" and r: "rest = drop (lcp (prefix n) ps) ps"
    by (auto simp: enter_def Let_def split: if_splits)
  from k lcp_le(1) [of "prefix n" ps] have "lcp (prefix n) ps = length (prefix n)" by simp
  with lcp_split [of ps "prefix n"] r Static show ?thesis by (simp add: label_def)
next
  case Parameter
  assume "enter n ps = Inr (Rest rest)"
  with Parameter show ?thesis
    by (auto simp: enter_def label_def split: list.splits piece.splits if_splits)
next
  case CatchAll
  assume "enter n ps = Inr (Rest rest)"
  with CatchAll show ?thesis
    by (auto simp: enter_def label_def split: list.splits piece.splits if_splits)
qed

lemma enter_Split:
  "enter n ps = Inr (Split k) \<Longrightarrow> kind n = Static \<and> k = lcp (prefix n) ps \<and> k < length (prefix n)"
  by (cases "kind n") (auto simp: enter_def Let_def split: list.splits piece.splits if_splits)

definition under :: "piece list \<Rightarrow> (piece list \<times> 'h) set \<Rightarrow> (piece list \<times> 'h) set" where
  "under l R = (\<lambda>(ps, h). (l @ ps, h)) ` R"

lemma under_empty [simp]: "under l {} = {}"
  by (simp add: under_def)

lemma under_insert [simp]: "under l (insert (ps, h) R) = insert (l @ ps, h) (under l R)"
  by (simp add: under_def)

lemma under_Un [simp]: "under l (A \<union> B) = under l A \<union> under l B"
  by (auto simp: under_def)

lemma under_under [simp]: "under l (under m R) = under (l @ m) R"
  by (auto simp: under_def image_iff)

lemma label_simps [simp]:
  "label (Node pre Static cs wild hnd cnt) = map Lit pre"
  "label (Node pre Parameter cs wild hnd cnt) = [Par pre]"
  "label (Node pre CatchAll cs wild hnd cnt) = [Cat pre]"
  by (simp_all add: label_def)

lemma routes_under:
  "routes n =
     (case handler n of None \<Rightarrow> {} | Some h \<Rightarrow> {(label n, h)}) \<union>
     under (label n) (\<Union>c\<in>set (children n). routes c)"
  by (cases n) (auto simp: under_def)

lemma routes_split:
  "routes (Node pre Static cs wild hnd cnt) =
   under (map Lit (take k pre)) (routes (Node (drop k pre) Static cs wild hnd cnt))"
proof -
  have "map Lit pre = map Lit (take k pre) @ map Lit (drop k pre)"
    by (metis append_take_drop_id map_append)
  then show ?thesis
    by (cases hnd) (simp_all add: routes_under [of "Node _ _ _ _ _ _"] del: routes.simps)
qed

lemma split_good:
  assumes wf: "wfNode n" and e: "enter n ps = Inr (Split k)" and cl: "catchAllLast ps"
    and s: "splitNode n k (drop k ps) h = Inr n'"
  shows "good n n' ps h"
proof -
  obtain pre knd cs wild hnd cnt where n: "n = Node pre knd cs wild hnd cnt" by (cases n)
  from enter_Split [OF e] n have knd: "knd = Static" and k: "k = lcp pre ps" and kl: "k < length pre"
    by simp_all
  define old where "old = Node (drop k pre) Static cs wild hnd cnt"
  define rest where "rest = drop k ps"
  have ps: "ps = map Lit (take k pre) @ rest"
    unfolding k rest_def by (rule lcp_split)
  from wf n knd have wfo: "wfNode old" by (simp add: old_def)
  from kl have po: "prefix old \<noteq> []" "kind old = Static" "hd (prefix old) = pre ! k"
    by (simp_all add: old_def hd_drop_conv_nth)
  have r: "routes n = under (map Lit (take k pre)) (routes old)"
    unfolding n knd old_def by (rule routes_split)
  have hd: "pre \<noteq> [] \<Longrightarrow> (\<exists>t. ps = Lit (hd pre) # t) \<Longrightarrow> take k pre \<noteq> [] \<and> hd (take k pre) = hd pre"
  proof -
    assume "pre \<noteq> []" "\<exists>t. ps = Lit (hd pre) # t"
    then have "0 < k" unfolding k using lcp_positive by blast
    with \<open>pre \<noteq> []\<close> show ?thesis by (cases pre) auto
  qed
  show ?thesis
  proof (cases rest)
    case Nil
    with s n have n': "n' = Node (take k pre) Static [old] False (Some h) (cnt + 1)"
      by (simp add: splitNode_def old_def rest_def)
    have "wfNode n'" using wfo po by (simp add: n' firstBytes_def)
    moreover have "routes n' = insert (ps, h) (routes n)"
      using ps Nil by (simp add: n' r routes_under [of "Node _ _ _ _ _ _"] del: routes.simps)
    ultimately show ?thesis using hd n knd by (simp add: good_def n')
  next
    case (Cons p t)
    show ?thesis
    proof (cases p)
      case (Lit d)
      with s n Cons have n': "n' = Node (take k pre) Static (reorder [old, build rest h]) False None (cnt + 1)"
        by (simp add: splitNode_def old_def rest_def)
      from cl ps Cons have "catchAllLast rest" by (metis catchAllLast_append list.distinct(1))
      from build_props [OF this, of h] have b: "wfNode (build rest h)" "routes (build rest h) = {(rest, h)}"
        by simp_all
      from build_Lit [of d t h] Cons Lit have bl: "kind (build rest h) = Static"
        "prefix (build rest h) \<noteq> []" "hd (prefix (build rest h)) = d" by simp_all
      from lcp_maximal [of pre ps d t] kl Cons Lit have "d \<noteq> pre ! k"
        by (simp add: k rest_def)
      with wfo po b bl have "okStatic [old, build rest h]"
        by (simp add: okStatic_def firstBytes_def)
      then have "wfNode n'"
        by (simp add: n' wfNode_static_children okStatic_reorder del: wfNode.simps)
      moreover have "routes n' = insert (ps, h) (routes n)"
        using ps b(2) by (simp add: n' r routes_under [of "Node _ _ _ _ _ _"] Un_commute del: routes.simps)
      ultimately show ?thesis using hd n knd by (simp add: good_def n')
    next
      case (Par x)
      with s n Cons show ?thesis by (simp add: splitNode_def rest_def)
    next
      case (Cat x)
      with s n Cons show ?thesis by (simp add: splitNode_def rest_def)
    qed
  qed
qed

subsection \<open>Insertion\<close>

lemma catchAll_rest:
  assumes "catchAllLast (label n @ rest)" "rest \<noteq> []"
  shows "kind n \<noteq> CatchAll"
proof
  assume "kind n = CatchAll"
  with assms(1) have "rest = []" by (simp add: label_def)
  with assms(2) show False by simp
qed

lemma terminal_good:
  assumes wf: "wfNode (Node pre knd cs wild None cnt)"
    and ps: "ps = label (Node pre knd cs wild None cnt)"
  shows "good (Node pre knd cs wild None cnt) (Node pre knd cs wild (Some h) (cnt + 1)) ps h"
proof -
  have "label (Node pre knd cs wild (Some h) (cnt + 1)) = label (Node pre knd cs wild None cnt)"
    by (rule label_Node)
  then have "routes (Node pre knd cs wild (Some h) (cnt + 1)) =
             insert (ps, h) (routes (Node pre knd cs wild None cnt))"
    by (simp add: ps)
  with wf show ?thesis by (simp add: good_def)
qed

lemma static_good:
  assumes wf: "wfNode (Node pre knd cs False hnd cnt)"
    and ps: "ps = label (Node pre knd cs False hnd cnt) @ rest" and cl: "catchAllLast ps"
    and g: "goodStatic cs cs' d rest h"
  shows "good (Node pre knd cs False hnd cnt) (Node pre knd (reorder cs') False hnd (cnt + 1)) ps h"
proof -
  from g have ok: "okStatic cs'" and r: "(\<Union>c\<in>set cs'. routes c) = insert (rest, h) (\<Union>c\<in>set cs. routes c)"
    and ne: "cs' \<noteq> []"
    by (simp_all add: goodStatic_def)
  have l: "label (Node pre knd (reorder cs') False hnd (cnt + 1)) = label (Node pre knd cs False hnd cnt)"
    by (rule label_Node)
  have "knd \<noteq> CatchAll"
  proof
    assume "knd = CatchAll"
    with wf have "cs = []" by simp
    with r have "(rest, h) \<in> (\<Union>c\<in>set cs'. routes c)" by simp
    then obtain c where "c \<in> set cs'" "(rest, h) \<in> routes c" by blast
    with ok routes_label [of rest h c] obtain t where "rest = label c @ t" "kind c = Static" "prefix c \<noteq> []"
      by (auto simp: okStatic_def)
    then have "rest \<noteq> []" by (cases "prefix c") (simp_all add: label_def)
    with catchAll_rest [OF cl [unfolded ps]] \<open>knd = CatchAll\<close> show False by simp
  qed
  with ok have "wfNode (Node pre knd (reorder cs') False hnd (cnt + 1))"
    by (simp add: wfNode_static_children okStatic_reorder del: wfNode.simps)
  moreover have "routes (Node pre knd (reorder cs') False hnd (cnt + 1)) =
      insert (ps, h) (routes (Node pre knd cs False hnd cnt))"
    unfolding routes_under [of "Node pre knd (reorder cs') False hnd (cnt + 1)"]
      routes_under [of "Node pre knd cs False hnd cnt"] l
    using r by (simp add: ps)
  ultimately show ?thesis by (simp add: good_def)
qed

lemma wildcard_new_good:
  assumes wf: "wfNode (Node pre knd [] wild hnd cnt)"
    and ps: "ps = label (Node pre knd [] wild hnd cnt) @ p # t" and cl: "catchAllLast ps"
    and p: "(\<exists>name. p = Par name) \<or> (\<exists>name. p = Cat name)"
  shows "good (Node pre knd [] wild hnd cnt) (Node pre knd [build (p # t) h] True hnd (cnt + 1)) ps h"
proof -
  from cl ps have "catchAllLast (p # t)" by (metis catchAllLast_append list.distinct(1))
  from build_props [OF this, of h] have b: "wfNode (build (p # t) h)"
    "routes (build (p # t) h) = {(p # t, h)}" by simp_all
  from build_wildcard [OF p] have k: "kind (build (p # t) h) \<noteq> Static" .
  have l: "label (Node pre knd [build (p # t) h] True hnd (cnt + 1)) = label (Node pre knd [] wild hnd cnt)"
    by (rule label_Node)
  from catchAll_rest [OF cl [unfolded ps]] have "knd \<noteq> CatchAll" by simp
  with b k have "wfNode (Node pre knd [build (p # t) h] True hnd (cnt + 1))" by simp
  moreover have "routes (Node pre knd [build (p # t) h] True hnd (cnt + 1)) =
      insert (ps, h) (routes (Node pre knd [] wild hnd cnt))"
    unfolding routes_under [of "Node pre knd [build (p # t) h] True hnd (cnt + 1)"]
      routes_under [of "Node pre knd [] wild hnd cnt"] l
    using b(2) by (simp add: ps)
  ultimately show ?thesis by (simp add: good_def)
qed

lemma wildcard_child_good:
  assumes wf: "wfNode (Node pre knd (c # cs) True hnd cnt)"
    and ps: "ps = label (Node pre knd (c # cs) True hnd cnt) @ rest"
    and g: "good c c' rest h"
  shows "good (Node pre knd (c # cs) True hnd cnt) (Node pre knd (c' # cs) True hnd (cnt + 1)) ps h"
proof -
  from wf have cs: "cs = []" and k: "kind c \<noteq> Static" and nk: "knd \<noteq> CatchAll" by auto
  from g have wfc: "wfNode c'" and r: "routes c' = insert (rest, h) (routes c)"
    and kc: "kind c' = kind c" by (simp_all add: good_def)
  have l: "label (Node pre knd (c' # cs) True hnd (cnt + 1)) = label (Node pre knd (c # cs) True hnd cnt)"
    by (rule label_Node)
  from wfc k kc cs nk have "wfNode (Node pre knd (c' # cs) True hnd (cnt + 1))" by simp
  moreover have "routes (Node pre knd (c' # cs) True hnd (cnt + 1)) =
      insert (ps, h) (routes (Node pre knd (c # cs) True hnd cnt))"
    unfolding routes_under [of "Node pre knd (c' # cs) True hnd (cnt + 1)"]
      routes_under [of "Node pre knd (c # cs) True hnd cnt"] l
    using r cs by (simp add: ps)
  ultimately show ?thesis by (simp add: good_def)
qed

lemma insStatic_Nil_good:
  assumes "catchAllLast (Lit d # t)"
  shows "goodStatic [] [build (Lit d # t) h] d (Lit d # t) h"
proof -
  from build_props [OF assms, of h] build_Lit [of d t h] show ?thesis
    by (simp add: goodStatic_def okStatic_def firstBytes_def)
qed

lemma insStatic_here_good:
  assumes ok: "okStatic (c # cs)" and fb: "firstByte c d" and g: "good c c' (Lit d # t) h"
  shows "goodStatic (c # cs) (c' # cs) d (Lit d # t) h"
proof -
  from fb have c: "kind c = Static" "prefix c \<noteq> []" "hd (prefix c) = d"
    by (simp_all add: firstByte_def)
  with g have c': "wfNode c'" "routes c' = insert (Lit d # t, h) (routes c)" "kind c' = Static"
    "prefix c' \<noteq> []" "hd (prefix c') = hd (prefix c)"
    by (simp_all add: good_def)
  with ok have "okStatic (c' # cs)" by (simp add: okStatic_def firstBytes_def)
  with c' show ?thesis by (auto simp: goodStatic_def firstBytes_def)
qed

lemma insStatic_there_good:
  assumes ok: "okStatic (c # cs)" and fb: "\<not> firstByte c d" and g: "goodStatic cs cs' d rest h"
  shows "goodStatic (c # cs) (c # cs') d rest h"
proof -
  from ok have c: "wfNode c" "kind c = Static" "prefix c \<noteq> []"
    and nin: "hd (prefix c) \<notin> set (firstBytes cs)"
    by (simp_all add: okStatic_def firstBytes_def)
  with fb have "hd (prefix c) \<noteq> d" by (simp add: firstByte_def)
  with g nin have "hd (prefix c) \<notin> set (firstBytes cs')" by (auto simp: goodStatic_def)
  with g c have "okStatic (c # cs')" by (simp add: goodStatic_def okStatic_def firstBytes_def)
  with g show ?thesis by (auto simp: goodStatic_def firstBytes_def)
qed

lemma ins_good_both:
  "wfNode n \<longrightarrow> catchAllLast ps \<longrightarrow> (\<forall>n'. ins n ps h = Inr n' \<longrightarrow> good n n' ps h)"
  "okStatic cs \<longrightarrow> catchAllLast rest \<longrightarrow> (\<exists>t. rest = Lit d # t) \<longrightarrow>
     (\<forall>cs'. insStatic cs d rest h = Inr cs' \<longrightarrow> goodStatic cs cs' d rest h)"
proof (induction n ps h and cs d rest h rule: ins_insStatic.induct)
  case (1 pre knd cs wild hnd cnt ps h)
  let ?n = "Node pre knd cs wild hnd cnt"
  show ?case
  proof (intro impI allI)
    fix n'
    assume wf: "wfNode ?n" and cl: "catchAllLast ps" and i: "ins ?n ps h = Inr n'"
    show "good ?n n' ps h"
    proof (cases "enter ?n ps")
      case (Inl e)
      with i show ?thesis by simp
    next
      case (Inr b)
      show ?thesis
      proof (cases b)
        case (Split k)
        with Inr i have "splitNode ?n k (drop k ps) h = Inr n'" by simp
        from split_good [OF wf _ cl this] Inr Split show ?thesis by simp
      next
        case (Rest rest)
        with Inr have e: "enter ?n ps = Inr (Rest rest)" by simp
        from enter_Rest [OF e] have ps: "ps = label ?n @ rest" .
        show ?thesis
        proof (cases rest)
          case Nil
          with i e have hnd: "hnd = None" and n': "n' = Node pre knd cs wild (Some h) (cnt + 1)"
            by (auto split: option.splits)
          from terminal_good [of pre knd cs wild cnt ps h] wf ps Nil hnd n'
          show ?thesis by simp
        next
          case (Cons p t)
          show ?thesis
          proof (cases p)
            case (Lit d)
            with i e Cons have nw: "\<not> wild" by (auto split: if_splits)
            with i e Cons Lit obtain cs' where s: "insStatic cs d rest h = Inr cs'"
              and n': "n' = Node pre knd (reorder cs') False hnd (cnt + 1)"
              by (auto split: sum.splits)
            from wf nw have ok: "okStatic cs" by (simp add: okStatic_def)
            from cl ps Cons have clr: "catchAllLast rest"
              by (metis catchAllLast_append list.distinct(1))
            from "1.IH"(1) [OF e refl Cons Lit nw] ok clr Cons Lit s
            have "goodStatic cs cs' d rest h" by simp
            from static_good [OF _ _ cl this, of pre knd hnd cnt] wf nw ps n'
            show ?thesis by simp
          next
            case (Par name)
            show ?thesis
            proof (cases cs)
              case Nil
              with i e Cons Par have n': "n' = Node pre knd [build rest h] True hnd (cnt + 1)"
                by simp
              from wildcard_new_good [of pre knd wild hnd cnt ps p t h] wf ps cl Nil Cons Par n'
              show ?thesis by simp
            next
              case (Cons c cs'')
              with i e \<open>rest = p # t\<close> Par have w: wild by (auto split: if_splits)
              with i e \<open>rest = p # t\<close> Par Cons obtain c' where s: "ins c rest h = Inr c'"
                and n': "n' = Node pre knd (c' # cs'') True hnd (cnt + 1)"
                by (auto split: sum.splits)
              from wf Cons have wfc: "wfNode c" by simp
              from cl ps \<open>rest = p # t\<close> have clr: "catchAllLast rest"
                by (metis catchAllLast_append list.distinct(1))
              from "1.IH"(2) [OF e refl \<open>rest = p # t\<close> Par Cons w] wfc clr s
              have "good c c' rest h" by simp
              from wildcard_child_good [OF _ _ this, of pre knd cs'' hnd cnt ps] wf w ps Cons n'
              show ?thesis by simp
            qed
          next
            case (Cat name)
            show ?thesis
            proof (cases cs)
              case Nil
              with i e Cons Cat have n': "n' = Node pre knd [build rest h] True hnd (cnt + 1)"
                by simp
              from wildcard_new_good [of pre knd wild hnd cnt ps p t h] wf ps cl Nil Cons Cat n'
              show ?thesis by simp
            next
              case (Cons c cs'')
              with i e \<open>rest = p # t\<close> Cat have w: wild by (auto split: if_splits)
              with i e \<open>rest = p # t\<close> Cat Cons obtain c' where s: "ins c rest h = Inr c'"
                and n': "n' = Node pre knd (c' # cs'') True hnd (cnt + 1)"
                by (auto split: sum.splits)
              from wf Cons have wfc: "wfNode c" by simp
              from cl ps \<open>rest = p # t\<close> have clr: "catchAllLast rest"
                by (metis catchAllLast_append list.distinct(1))
              from "1.IH"(3) [OF e refl \<open>rest = p # t\<close> Cat Cons w] wfc clr s
              have "good c c' rest h" by simp
              from wildcard_child_good [OF _ _ this, of pre knd cs'' hnd cnt ps] wf w ps Cons n'
              show ?thesis by simp
            qed
          qed
        qed
      qed
    qed
  qed
next
  case (2 d rest h)
  show ?case
  proof (intro impI allI)
    fix cs'
    assume cl: "catchAllLast rest" and l: "\<exists>t. rest = Lit d # t"
      and i: "insStatic [] d rest h = Inr cs'"
    from i have cs': "cs' = [build rest h]" by simp
    from l obtain t where rest: "rest = Lit d # t" ..
    from cl have "goodStatic [] [build (Lit d # t) h] d (Lit d # t) h"
      unfolding rest by (rule insStatic_Nil_good)
    then show "goodStatic [] cs' d rest h" unfolding cs' rest .
  qed
next
  case (3 c cs d rest h)
  show ?case
  proof (intro impI allI)
    fix cs'
    assume ok: "okStatic (c # cs)" and cl: "catchAllLast rest" and l: "\<exists>t. rest = Lit d # t"
      and i: "insStatic (c # cs) d rest h = Inr cs'"
    from l obtain t where rest: "rest = Lit d # t" ..
    show "goodStatic (c # cs) cs' d rest h"
    proof (cases "firstByte c d")
      case True
      with i obtain c' where s: "ins c rest h = Inr c'" and cs': "cs' = c' # cs"
        by (auto split: sum.splits)
      from ok have "wfNode c" by (simp add: okStatic_def)
      with "3.IH"(1) [OF True] cl s have "good c c' rest h" by simp
      from insStatic_here_good [OF ok True this [unfolded rest]] cs' rest show ?thesis by simp
    next
      case False
      with i obtain cs'' where s: "insStatic cs d rest h = Inr cs''" and cs': "cs' = c # cs''"
        by (auto split: sum.splits)
      from ok have "okStatic cs" by (simp add: okStatic_def firstBytes_def)
      with "3.IH"(2) [OF False] cl l s have "goodStatic cs cs'' d rest h" by simp
      from insStatic_there_good [OF ok False this] cs' show ?thesis by simp
    qed
  qed
qed

subsection \<open>The router over the route tree\<close>

lemma pieces_catchAllLast: "pieces p = Inr ps \<Longrightarrow> catchAllLast ps"
proof (induction p arbitrary: ps rule: pieces.induct)
  case 1
  then show ?case by simp
next
  case (2 c cs)
  show ?case
  proof (cases "c = CHR ''/'' \<and> cs \<noteq> [] \<and> hd cs = CHR ''*''")
    case True
    with "2.prems" show ?thesis by (auto split: if_splits)
  next
    case nc: False
    show ?thesis
    proof (cases "c = CHR ''/'' \<and> cs \<noteq> [] \<and> hd cs = CHR '':''")
      case True
      with nc "2.prems" obtain ps' where
        p: "pieces (dropWhile (\<lambda>x. x \<noteq> CHR ''/'') (tl cs)) = Inr ps'"
        and ps: "ps = Lit c # Par (takeWhile (\<lambda>x. x \<noteq> CHR ''/'') (tl cs)) # ps'"
        by (auto split: sum.splits)
      from "2.IH"(1) [OF nc True p] ps show ?thesis by simp
    next
      case False
      with nc "2.prems" obtain ps' where p: "pieces cs = Inr ps'" and ps: "ps = Lit c # ps'"
        by (auto split: sum.splits)
      from "2.IH"(2) [OF nc False p] ps show ?thesis by simp
    qed
  qed
qed

lemma pieces_literal: "pieces p = Inr ps \<Longrightarrow> matchPath ps p = Some (literalParams ps)"
proof (induction p arbitrary: ps rule: pieces.induct)
  case 1
  then show ?case by simp
next
  case (2 c cs)
  show ?case
  proof (cases "c = CHR ''/'' \<and> cs \<noteq> [] \<and> hd cs = CHR ''*''")
    case True
    then obtain name where cs: "cs = CHR ''*'' # name" by (cases cs) auto
    with True "2.prems" have "ps = [Cat name]" by (auto split: if_splits)
    with True cs show ?thesis by simp
  next
    case nc: False
    show ?thesis
    proof (cases "c = CHR ''/'' \<and> cs \<noteq> [] \<and> hd cs = CHR '':''")
      case True
      then obtain cs' where cs: "cs = CHR '':'' # cs'" by (cases cs) auto
      with True nc "2.prems" obtain ps' where
        p: "pieces (dropWhile (\<lambda>x. x \<noteq> CHR ''/'') (tl cs)) = Inr ps'"
        and ps: "ps = Lit c # Par (takeWhile (\<lambda>x. x \<noteq> CHR ''/'') (tl cs)) # ps'"
        by (auto split: sum.splits)
      from "2.IH"(1) [OF nc True p] ps cs show ?thesis by simp
    next
      case False
      with nc "2.prems" obtain ps' where p: "pieces cs = Inr ps'" and ps: "ps = Lit c # ps'"
        by (auto split: sum.splits)
      from "2.IH"(2) [OF nc False p] ps show ?thesis by simp
    qed
  qed
qed

lemma ins_good: "wfNode n \<Longrightarrow> catchAllLast ps \<Longrightarrow> ins n ps h = Inr n' \<Longrightarrow> good n n' ps h"
  using ins_good_both(1) [of n ps h] by simp

lemma addRoute_ok:
  assumes wf: "wfNode n" and a: "addRoute n path h = (n', None)"
  shows "\<exists>ps. pieces path = Inr ps \<and> wfNode n' \<and> (ps, h) \<in> routes n' \<and> routes n \<subseteq> routes n'"
proof -
  from a obtain ps where p: "pieces path = Inr ps"
    by (cases "pieces path") (auto simp: addRoute_def)
  from pieces_catchAllLast [OF p] have cl: "catchAllLast ps" .
  show ?thesis
  proof (cases "prefix n = [] \<and> children n = [] \<and> handler n = None")
    case True
    with a p have n': "n' = build ps h" by (simp add: addRoute_def)
    from True have "routes n = {}" by (cases n) simp
    with build_props [OF cl, of h] n' p show ?thesis by simp
  next
    case False
    with a p have "ins n ps h = Inr n'" by (auto simp: addRoute_def split: sum.splits)
    from ins_good [OF wf cl this] p show ?thesis by (auto simp: good_def)
  qed
qed

definition treesWf :: "'h node Router \<Rightarrow> bool" where
  "treesWf r = (\<forall>m n. treeOf r m = Some n \<longrightarrow> wfNode n)"

definition registered :: "'h node Router \<Rightarrow> string \<Rightarrow> string \<Rightarrow> 'h \<Rightarrow> bool" where
  "registered r m path h =
     (\<exists>n ps. treeOf r m = Some n \<and> pieces path = Inr ps \<and> (ps, h) \<in> routes n)"

lemma wfNode_newNode: "wfNode newNode"
  by (simp add: newNode_def firstBytes_def)

lemma Handle_ok:
  assumes wf: "treesWf r" and hd: "Handle addRoute newNode r m p h = (r', None)"
  shows "treesWf r' \<and> registered r' m p h \<and>
         (\<forall>m0 p0 h0. registered r m0 p0 h0 \<longrightarrow> registered r' m0 p0 h0)"
proof -
  define ts where "ts = (case trees r of None \<Rightarrow> Map.empty | Some ts \<Rightarrow> ts)"
  define root where "root = (case ts m of None \<Rightarrow> newNode | Some root \<Rightarrow> root)"
  have t: "treeOf r m0 = ts m0" for m0
    by (simp add: treeOf_def ts_def split: option.splits)
  from hd obtain root' where a: "addRoute root p h = (root', None)"
    and r': "r' = r\<lparr>trees := Some (ts(m \<mapsto> root'))\<rparr>"
    by (auto simp: Handle_def Let_def ts_def root_def split: sum.splits if_splits prod.splits)
  have wfr: "wfNode root"
    using wf t [of m] by (cases "ts m") (simp_all add: root_def wfNode_newNode treesWf_def)
  from addRoute_ok [OF wfr a] obtain ps where p: "pieces p = Inr ps" and wf': "wfNode root'"
    and i: "(ps, h) \<in> routes root'" and sub: "routes root \<subseteq> routes root'" by blast
  have t': "treeOf r' m0 = (if m0 = m then Some root' else ts m0)" for m0
    by (simp add: treeOf_def r')
  have "treesWf r'"
    using wf wf' t t' by (simp add: treesWf_def)
  moreover have "registered r' m p h"
    using t' p i by (auto simp: registered_def)
  moreover have "registered r' m0 p0 h0" if "registered r m0 p0 h0" for m0 p0 h0
  proof (cases "m0 = m")
    case True
    with that t obtain ps0 where "ts m = Some root" "pieces p0 = Inr ps0" "(ps0, h0) \<in> routes root"
      by (auto simp: registered_def root_def)
    with sub t' True show ?thesis by (auto simp: registered_def)
  next
    case False
    with that t t' show ?thesis by (auto simp: registered_def)
  qed
  ultimately show ?thesis by blast
qed

lemma registrations_ok:
  assumes "treesWf r" "nonConflicting addRoute newNode r calls"
  shows "treesWf (registrations addRoute newNode r calls) \<and>
         (\<forall>(m, p, h)\<in>set calls. registered (registrations addRoute newNode r calls) m p h) \<and>
         (\<forall>m p h. registered r m p h \<longrightarrow> registered (registrations addRoute newNode r calls) m p h)"
  using assms
proof (induction calls arbitrary: r)
  case Nil
  then show ?case by simp
next
  case (Cons call calls)
  obtain m p h where call: "call = (m, p, h)" by (cases call)
  define r' where "r' = fst (Handle addRoute newNode r m p h)"
  from Cons.prems(2) [unfolded call] have hd: "Handle addRoute newNode r m p h = (r', None)"
    and nc: "nonConflicting addRoute newNode r' calls"
    by (simp_all add: r'_def prod_eq_iff)
  from Handle_ok [OF Cons.prems(1) hd] have wf': "treesWf r'" and reg: "registered r' m p h"
    and mono: "\<And>m0 p0 h0. registered r m0 p0 h0 \<Longrightarrow> registered r' m0 p0 h0" by blast+
  from Cons.IH [OF wf' nc] have
    IH: "treesWf (registrations addRoute newNode r' calls)"
    "\<And>m p h. (m, p, h) \<in> set calls \<Longrightarrow> registered (registrations addRoute newNode r' calls) m p h"
    "\<And>m p h. registered r' m p h \<Longrightarrow> registered (registrations addRoute newNode r' calls) m p h"
    by blast+
  have e: "registrations addRoute newNode r (call # calls) = registrations addRoute newNode r' calls"
    by (simp add: call r'_def)
  show ?case
    unfolding e using IH reg mono call by auto
qed

lemma Lookup_registered:
  assumes "treesWf r" "registered r m p h" "matchRoute p q = Some qs"
  shows "Lookup getValue r m q = Inr (Some h, qs, False)"
proof -
  from assms(2) obtain n ps where t: "treeOf r m = Some n" and p: "pieces p = Inr ps"
    and i: "(ps, h) \<in> routes n" by (auto simp: registered_def)
  from assms(1) t have wf: "wfNode n" by (simp add: treesWf_def)
  from assms(3) p have "matchPath ps q = Some qs" by (simp add: matchRoute_def)
  from descend_registered [OF wf i this] t show ?thesis
    by (simp add: Lookup_def getValue_def)
qed

lemma matchRoute_literal:
  "pieces p = Inr ps \<Longrightarrow> matchRoute p p = Some (literalSegments p)"
  by (simp add: matchRoute_def literalSegments_def pieces_literal)

lemma treesWf_New: "treesWf New"
  by (simp add: treesWf_def treeOf_def New_def)

section \<open>Properties of CleanPath\<close>

text \<open>
  Claim C4.  CleanPath gives the four values of the specification's test vectors:
  the empty string gives \<open>/\<close>, \<open>/a/./b/../c\<close> gives \<open>/a/c\<close>, \<open>//a//b/\<close> gives \<open>/a/b/\<close>
  and \<open>/../../x\<close> gives \<open>/x\<close>; in each case it returns and does not panic.
\<close>

theorem CleanPath_test_vectors:
  "CleanPath [] = Inr ''/'' \<and>
   CleanPath ''/a/./b/../c'' = Inr ''/a/c'' \<and>
   CleanPath ''//a//b/'' = Inr ''/a/b/'' \<and>
   CleanPath ''/../../x'' = Inr ''/x''"
  by code_simp

text \<open>
  Claim C2.  The recipe that only rejoins the kept segments under a leading \<open>/\<close>
  (\<open>normalize_recipe\<close>) is not what CleanPath computes: it gives \<open>/a\<close> for \<open>/a/\<close> and
  for \<open>/a/.\<close>, where CleanPath re-appends the trailing slash and returns \<open>/a/\<close>
  (the counterexample after the witness).  With the trailing rule of section 4.1 the
  claim holds: for every input string, CleanPath returns (it does not panic) the
  normalization \<open>normalize_path\<close>, that is the input split at \<open>/\<close> into segments, the
  empty segments of runs of slashes and the \<open>.\<close> segments dropped, every \<open>..\<close> segment
  removing the most recently kept segment and doing nothing at the root, the kept segments
  written each after a \<open>/\<close>, \<open>/\<close> for the empty input and for an input that keeps no
  segment, and a final \<open>/\<close> when segments are kept and the input ends in \<open>/\<close> or in a
  \<open>.\<close> segment.
\<close>

theorem CleanPath_equals_normalize: "CleanPath p = Inr (normalize_path p)"
  by (rule CleanPath_normalize)

theorem CleanPath_equals_normalize_witness:
  "CleanPath ''a//b/./c/../d/'' = Inr (normalize_path ''a//b/./c/../d/'') \<and>
   normalize_path ''a//b/./c/../d/'' = ''/a/b/d/''"
proof -
  have "normalize_path ''a//b/./c/../d/'' = ''/a/b/d/''"
    by (simp add: normalize_path_def kept_segments_def trailing_slash_def apply_segment_def
        join_segments_def)
  with CleanPath_equals_normalize [of "''a//b/./c/../d/''"] show ?thesis by simp
qed

text \<open>
  The counterexample to the recipe without the trailing rule: on \<open>/a/\<close> and on \<open>/a/.\<close>
  CleanPath returns \<open>/a/\<close> and the recipe gives \<open>/a\<close>.
\<close>

theorem CleanPath_recipe_counterexample:
  "CleanPath ''/a/'' = Inr ''/a/'' \<and> normalize_recipe ''/a/'' = ''/a'' \<and>
   CleanPath ''/a/'' \<noteq> Inr (normalize_recipe ''/a/'') \<and>
   CleanPath ''/a/.'' = Inr ''/a/'' \<and> normalize_recipe ''/a/.'' = ''/a'' \<and>
   CleanPath ''/a/.'' \<noteq> Inr (normalize_recipe ''/a/.'')"
proof -
  have c: "CleanPath ''/a/'' = Inr ''/a/''" "CleanPath ''/a/.'' = Inr ''/a/''"
    by code_simp+
  have r: "normalize_recipe ''/a/'' = ''/a''" "normalize_recipe ''/a/.'' = ''/a''"
    by (simp_all add: normalize_recipe_def kept_segments_def apply_segment_def join_segments_def)
  from c r show ?thesis by simp
qed

text \<open>
  Claim C3.  CleanPath is idempotent: for every string \<open>p\<close> CleanPath returns a path
  \<open>q\<close>, and CleanPath of \<open>q\<close> returns \<open>q\<close> again.
\<close>

theorem CleanPath_idempotent: "\<exists>q. CleanPath p = Inr q \<and> CleanPath q = Inr q"
proof -
  have "CleanPath p = Inr (normalize_path p)" by (rule CleanPath_normalize)
  moreover have "CleanPath (normalize_path p) = Inr (normalize_path (normalize_path p))"
    by (rule CleanPath_normalize)
  moreover have "normalize_path (normalize_path p) = normalize_path p"
    using normalize_canonical [of p] by (rule normalize_id)
  ultimately show ?thesis by simp
qed

theorem CleanPath_idempotent_witness:
  "CleanPath ''/a/./b/../c/'' = Inr ''/a/c/'' \<and> CleanPath ''/a/c/'' = Inr ''/a/c/''"
proof -
  have c: "CleanPath ''/a/./b/../c/'' = Inr ''/a/c/''" by code_simp
  from CleanPath_idempotent [of "''/a/./b/../c/''"] obtain q where
    "CleanPath ''/a/./b/../c/'' = Inr q" "CleanPath q = Inr q" by blast
  with c show ?thesis by simp
qed

text \<open>
  Claim C8.  For every input that ends in \<open>/\<close>, or whose final segment is \<open>.\<close> (the
  input is \<open>.\<close> or ends in \<open>/.\<close>), CleanPath returns a path that ends in \<open>/\<close>.
\<close>

theorem CleanPath_keeps_trailing_slash:
  assumes "(p \<noteq> [] \<and> last p = CHR ''/'') \<or> p = ''.'' \<or> (\<exists>q. p = q @ ''/.'')"
  shows "\<exists>s. CleanPath p = Inr (s @ ''/'')"
proof -
  from assms have "trailing_slash p"
    using trailing_slash_last [of p] trailing_slash_dot by auto
  then obtain s where "normalize_path p = s @ ''/''"
    using normalize_trailing by blast
  with CleanPath_normalize [of p] show ?thesis by simp
qed

theorem CleanPath_keeps_trailing_slash_witness:
  "(\<exists>s. CleanPath ''//a//b/'' = Inr (s @ ''/'')) \<and> CleanPath ''//a//b/'' = Inr ''/a/b/'' \<and>
   (\<exists>s. CleanPath ''/a/b/.'' = Inr (s @ ''/'')) \<and> CleanPath ''/a/b/.'' = Inr ''/a/b/'' \<and>
   (\<exists>s. CleanPath ''.'' = Inr (s @ ''/'')) \<and> CleanPath ''.'' = Inr ''/''"
proof -
  have "''//a//b/'' \<noteq> [] \<and> last ''//a//b/'' = CHR ''/''" by simp
  then have a: "\<exists>s. CleanPath ''//a//b/'' = Inr (s @ ''/'')"
    using CleanPath_keeps_trailing_slash [of "''//a//b/''"] by blast
  have "''/a/b/.'' = ''/a/b'' @ ''/.''" by simp
  then have "\<exists>q. ''/a/b/.'' = q @ ''/.''" by blast
  then have b: "\<exists>s. CleanPath ''/a/b/.'' = Inr (s @ ''/'')"
    using CleanPath_keeps_trailing_slash [of "''/a/b/.''"] by blast
  have c: "\<exists>s. CleanPath ''.'' = Inr (s @ ''/'')"
    using CleanPath_keeps_trailing_slash [of "''.''"] by blast
  have "CleanPath ''//a//b/'' = Inr ''/a/b/''" "CleanPath ''/a/b/.'' = Inr ''/a/b/''"
    "CleanPath ''.'' = Inr ''/''" by code_simp+
  with a b c show ?thesis by blast
qed

text \<open>
  Claim C9.  CleanPath is the identity on canonical paths: for every string \<open>p\<close> that
  begins with \<open>/\<close> and has no empty segment between its slashes, no \<open>.\<close> segment and
  no \<open>..\<close> segment, CleanPath returns \<open>p\<close> itself.  (\<open>canonical\<close> also admits a path
  that ends in \<open>/\<close>; a path with no empty segment at all is a special case.)
\<close>

theorem CleanPath_canonical_identity: "canonical p \<Longrightarrow> CleanPath p = Inr p"
  using CleanPath_normalize [of p] by (simp add: normalize_id)

theorem CleanPath_canonical_identity_witness:
  "canonical ''/src/filepath'' \<and> CleanPath ''/src/filepath'' = Inr ''/src/filepath'' \<and>
   canonical ''/src/filepath/'' \<and> CleanPath ''/src/filepath/'' = Inr ''/src/filepath/'' \<and>
   canonical ''/'' \<and> CleanPath ''/'' = Inr ''/''"
proof -
  have a: "canonical ''/src/filepath''" by (simp add: canonical_def)
  have b: "canonical ''/src/filepath/''" by (simp add: canonical_def)
  have c: "canonical ''/''" by (simp add: canonical_def)
  from a b c CleanPath_canonical_identity [OF a] CleanPath_canonical_identity [OF b]
    CleanPath_canonical_identity [OF c]
  show ?thesis by simp
qed

text \<open>
  Claim C10.  CleanPath is total and its result is an absolute path: for every input
  string, the empty one and those that do not begin with \<open>/\<close> included, it returns
  without panic a string that begins with \<open>/\<close> (so a non-empty one); and for an input
  \<open>p\<close> that does not begin with \<open>/\<close> the result is that of CleanPath on \<open>/\<close> followed
  by \<open>p\<close>.  (The loops of the model are total functions with termination proofs.)
\<close>

theorem CleanPath_total:
  "(\<exists>s. CleanPath p = Inr (CHR ''/'' # s)) \<and>
   ((\<nexists>t. p = CHR ''/'' # t) \<longrightarrow> CleanPath p = CleanPath (CHR ''/'' # p))"
proof -
  obtain s where "normalize_path p = CHR ''/'' # s" using normalize_rooted by blast
  then have "\<exists>s. CleanPath p = Inr (CHR ''/'' # s)" by (simp add: CleanPath_normalize)
  moreover have "CleanPath p = CleanPath (CHR ''/'' # p)"
    by (simp add: CleanPath_normalize normalize_slash)
  ultimately show ?thesis by blast
qed

theorem CleanPath_total_witness:
  "(\<exists>s. CleanPath ''a/../b'' = Inr (CHR ''/'' # s)) \<and>
   CleanPath ''a/../b'' = CleanPath ''/a/../b'' \<and> CleanPath ''a/../b'' = Inr ''/b'' \<and>
   CleanPath [] = CleanPath ''/''"
proof -
  have "\<nexists>t. ''a/../b'' = CHR ''/'' # t" by simp
  with CleanPath_total [of "''a/../b''"] have
    a: "(\<exists>s. CleanPath ''a/../b'' = Inr (CHR ''/'' # s))"
    and b: "CleanPath ''a/../b'' = CleanPath ''/a/../b''" by blast+
  have "\<nexists>t. [] = CHR ''/'' # t" by simp
  with CleanPath_total [of "[]"] have c: "CleanPath [] = CleanPath ''/''" by blast
  have "CleanPath ''a/../b'' = Inr ''/b''" by code_simp
  with a b c show ?thesis by blast
qed

section \<open>Properties of Params\<close>

lemma ByName_first:
  "i < length ps \<Longrightarrow> Key (ps ! i) = name \<Longrightarrow> \<forall>j<i. Key (ps ! j) \<noteq> name \<Longrightarrow>
   ByName ps name = Value (ps ! i)"
proof (induction ps arbitrary: i)
  case Nil
  then show ?case by simp
next
  case (Cons p ps)
  show ?case
  proof (cases i)
    case 0
    with Cons.prems show ?thesis by simp
  next
    case (Suc k)
    from Cons.prems(3) Suc have hd: "Key p \<noteq> name" by auto
    from Cons.prems(3) Suc have "\<forall>j<k. Key (ps ! j) \<noteq> name" by auto
    with Cons.IH [of k] Cons.prems(1,2) Suc have "ByName ps name = Value (ps ! k)" by simp
    with hd Suc show ?thesis by simp
  qed
qed

lemma ByName_absent: "\<forall>p\<in>set ps. Key p \<noteq> name \<Longrightarrow> ByName ps name = []"
  by (induction ps) auto

text \<open>
  Claim C7.  \<open>ByName ps name\<close> is the Value of the first pair of \<open>ps\<close> whose Key is
  \<open>name\<close> (the pair at the least index \<open>i\<close> with that key, whatever pairs with the same
  key follow it), and the empty string when no pair has that key.  ByName has no failing
  branch: it returns a string.
\<close>

theorem ByName_first_match_or_empty:
  "(\<forall>i<length ps. Key (ps ! i) = name \<and> (\<forall>j<i. Key (ps ! j) \<noteq> name)
       \<longrightarrow> ByName ps name = Value (ps ! i)) \<and>
   ((\<forall>p\<in>set ps. Key p \<noteq> name) \<longrightarrow> ByName ps name = [])"
  using ByName_first ByName_absent by blast

theorem ByName_first_match_or_empty_witness:
  "ByName [\<lparr>Key = ''id'', Value = ''1''\<rparr>, \<lparr>Key = ''x'', Value = ''2''\<rparr>,
           \<lparr>Key = ''id'', Value = ''3''\<rparr>] ''id'' = ''1'' \<and>
   ByName [\<lparr>Key = ''id'', Value = ''1''\<rparr>, \<lparr>Key = ''x'', Value = ''2''\<rparr>,
           \<lparr>Key = ''id'', Value = ''3''\<rparr>] ''x'' = ''2'' \<and>
   ByName [\<lparr>Key = ''id'', Value = ''1''\<rparr>, \<lparr>Key = ''x'', Value = ''2''\<rparr>,
           \<lparr>Key = ''id'', Value = ''3''\<rparr>] ''name'' = []"
proof -
  let ?ps = "[\<lparr>Key = ''id'', Value = ''1''\<rparr>, \<lparr>Key = ''x'', Value = ''2''\<rparr>,
              \<lparr>Key = ''id'', Value = ''3''\<rparr>]"
  have a: "ByName ?ps ''id'' = Value (?ps ! 0)"
    using ByName_first_match_or_empty [of ?ps "''id''"] by simp
  have "(1::nat) < length ?ps \<and> Key (?ps ! 1) = ''x'' \<and> (\<forall>j<(1::nat). Key (?ps ! j) \<noteq> ''x'')"
    by simp
  then have b: "ByName ?ps ''x'' = Value (?ps ! 1)"
    using ByName_first_match_or_empty [of ?ps "''x''"] by blast
  have "\<forall>p\<in>set ?ps. Key p \<noteq> ''name''" by simp
  then have c: "ByName ?ps ''name'' = []"
    using ByName_first_match_or_empty [of ?ps "''name''"] by blast
  from a b c show ?thesis by simp
qed

section \<open>Properties of the Router\<close>

lemma Handle_bad_path:
  assumes "\<nexists>t. path = CHR ''/'' # t"
  shows "\<exists>e. Handle add new r method path handle = (r, Some e)"
proof (cases path)
  case Nil
  then show ?thesis by (simp add: Handle_def byteAt_def)
next
  case (Cons c t)
  with assms have "c \<noteq> CHR ''/''" by simp
  with Cons show ?thesis by (simp add: Handle_def byteAt_def)
qed

text \<open>
  Claim C5.  For every router, method, path and handler (and whatever the route tree:
  \<open>add\<close> and \<open>new\<close> stand for any \<^verbatim>\<open>addRoute\<close> and \<^verbatim>\<open>new(node)\<close>), when the path does not begin
  with \<open>/\<close> (the empty path included) \<^verbatim>\<open>Handle\<close> ends in a panic and leaves the router
  as it was: nothing is registered and the call does not return normally.  The same holds
  for the shortcuts GET, HEAD, OPTIONS, POST, PUT, PATCH and DELETE, which call Handle.
\<close>

theorem Handle_panics_without_leading_slash:
  assumes "\<nexists>t. path = CHR ''/'' # t"
  shows "(\<exists>e. Handle add new r method path handle = (r, Some e)) \<and>
         (\<exists>e. GET add new r path handle = (r, Some e)) \<and>
         (\<exists>e. HEAD add new r path handle = (r, Some e)) \<and>
         (\<exists>e. OPTIONS add new r path handle = (r, Some e)) \<and>
         (\<exists>e. POST add new r path handle = (r, Some e)) \<and>
         (\<exists>e. PUT add new r path handle = (r, Some e)) \<and>
         (\<exists>e. PATCH add new r path handle = (r, Some e)) \<and>
         (\<exists>e. DELETE add new r path handle = (r, Some e))"
  unfolding GET_def HEAD_def OPTIONS_def POST_def PUT_def PATCH_def DELETE_def
  by (intro conjI) (rule Handle_bad_path [OF assms])+

theorem Handle_panics_without_leading_slash_witness:
  "Handle (\<lambda>n p h. (n @ [(p, h)], None)) [] (New :: (string \<times> nat) list Router) ''GET'' ''user/:id'' (7::nat)
     = (New, Some (Panic (beginMessage ''user/:id''))) \<and>
   Handle (\<lambda>n p h. (n @ [(p, h)], None)) [] (New :: (string \<times> nat) list Router) ''GET'' [] (7::nat)
     = (New, Some IndexOutOfRange) \<and>
   (\<exists>e. POST (\<lambda>n p h. (n @ [(p, h)], None)) [] (New :: (string \<times> nat) list Router) ''user/:id'' (7::nat)
     = (New, Some e))"
proof -
  have "\<nexists>t. ''user/:id'' = CHR ''/'' # t" by simp
  from Handle_panics_without_leading_slash [OF this,
      of "\<lambda>n p h. (n @ [(p, h)], None)" "[]" "New :: (string \<times> nat) list Router" _ "7::nat"]
  have "\<exists>e. POST (\<lambda>n p h. (n @ [(p, h)], None)) [] (New :: (string \<times> nat) list Router) ''user/:id'' (7::nat)
     = (New, Some e)" by blast
  then show ?thesis by (simp add: Handle_def byteAt_def)
qed

lemma treeOf_Handle:
  "method' \<noteq> method \<Longrightarrow>
   treeOf (fst (Handle add new r method' path handle)) method = treeOf r method"
  by (auto simp: Handle_def treeOf_def Let_def split: sum.splits prod.splits option.splits)

lemma treeOf_registrations:
  "method \<notin> fst ` set calls \<Longrightarrow>
   treeOf (registrations add new r calls) method = treeOf r method"
proof (induction calls arbitrary: r)
  case Nil
  then show ?case by simp
next
  case (Cons call calls)
  obtain m p h where call: "call = (m, p, h)" by (cases call)
  with Cons.prems have "m \<noteq> method" "method \<notin> fst ` set calls" by auto
  with Cons.IH [of "fst (Handle add new r m p h)"] call show ?case
    by (simp add: treeOf_Handle)
qed

text \<open>
  Claim C6.  For every router and path (and whatever the route tree: \<open>get\<close>, \<open>add\<close>
  and \<open>new\<close> stand for any \<^verbatim>\<open>getValue\<close>, \<^verbatim>\<open>addRoute\<close> and \<^verbatim>\<open>new(node)\<close>), when the router has no tree for a method (the map
  of trees is nil or has no entry for it), \<^verbatim>\<open>Lookup\<close> returns the nil handler, no
  parameters and the flag false, and does not panic; this is the case in particular of a
  fresh router after any history of registrations none of which names that method.
\<close>

theorem Lookup_without_tree:
  "(treeOf r method = None \<longrightarrow> Lookup get r method path = Inr (None, [], False)) \<and>
   (method \<notin> fst ` set calls \<longrightarrow>
      Lookup get (registrations add new New calls) method path = Inr (None, [], False))"
proof -
  have "treeOf (New :: 'a Router) method = None" by (simp add: treeOf_def New_def)
  then show ?thesis
    by (simp add: Lookup_def treeOf_registrations)
qed

theorem Lookup_without_tree_witness:
  "Lookup (\<lambda>n p. Inl IndexOutOfRange) (New :: (string \<times> nat) list Router) ''GET'' ''/user/7''
     = (Inr (None, [], False) :: panic + (nat option \<times> Params \<times> bool)) \<and>
   Lookup (\<lambda>n p. Inl IndexOutOfRange)
     (registrations (\<lambda>n p h. (n @ [(p, h)], None)) [] New [(''POST'', ''/user/:id'', 7::nat)])
     ''GET'' ''/user/7''
     = (Inr (None, [], False) :: panic + (nat option \<times> Params \<times> bool)) \<and>
   Lookup (\<lambda>n p. Inl IndexOutOfRange)
     (registrations (\<lambda>n p h. (n @ [(p, h)], None)) [] New [(''POST'', ''/user/:id'', 7::nat)])
     ''POST'' ''/user/7''
     = (Inl IndexOutOfRange :: panic + (nat option \<times> Params \<times> bool))"
proof -
  have a: "treeOf (New :: (string \<times> nat) list Router) ''GET'' = None"
    by (simp add: treeOf_def New_def)
  have b: "''GET'' \<notin> fst ` set [(''POST'', ''/user/:id'', 7::nat)]" by simp
  from a b Lookup_without_tree [of "New :: (string \<times> nat) list Router" "''GET''"
      "\<lambda>n p. Inl IndexOutOfRange :: panic + (nat option \<times> Params \<times> bool)" "''/user/7''"
      "[(''POST'', ''/user/:id'', 7::nat)]" "\<lambda>n p h. (n @ [(p, h)], None)" "[]"]
  show ?thesis
    by (simp add: Lookup_def treeOf_def Handle_def byteAt_def New_def)
qed

text \<open>
  Claim C1.  For every history of non-conflicting \<^verbatim>\<open>Handle\<close> calls on a fresh router (no
  call ends in a panic), the \<^verbatim>\<open>Lookup\<close> of every registered route, with its method and
  with the route itself as the path, returns the handler registered for it, no redirect
  hint, and as parameters the literal segments that stand in the path at the route's
  wildcards, in the order of the route; and more generally every path that matches the
  route returns that handler with the parameters the match captures.  The route tree is
  the one modelled from the specification.
\<close>

theorem Lookup_after_Handle:
  assumes "nonConflicting addRoute newNode New calls" "(method, path, handle) \<in> set calls"
  shows "Lookup getValue (registrations addRoute newNode New calls) method path =
           Inr (Some handle, literalSegments path, False) \<and>
         (\<forall>q qs. matchRoute path q = Some qs \<longrightarrow>
            Lookup getValue (registrations addRoute newNode New calls) method q =
              Inr (Some handle, qs, False))"
proof -
  let ?r = "registrations addRoute newNode New calls"
  from registrations_ok [OF treesWf_New assms(1)] assms(2)
  have wf: "treesWf ?r" and reg: "registered ?r method path handle" by auto
  from reg obtain ps where "pieces path = Inr ps" by (auto simp: registered_def)
  then have "matchRoute path path = Some (literalSegments path)" by (rule matchRoute_literal)
  with Lookup_registered [OF wf reg] show ?thesis by blast
qed

theorem Lookup_after_Handle_witness:
  "Lookup getValue (registrations addRoute newNode New exampleRoutes) ''GET'' ''/user/:id/profile''
     = Inr (Some 2, [\<lparr>Key = ''id'', Value = '':id''\<rparr>], False) \<and>
   Lookup getValue (registrations addRoute newNode New exampleRoutes) ''GET'' ''/user/42/profile''
     = Inr (Some 2, [\<lparr>Key = ''id'', Value = ''42''\<rparr>], False) \<and>
   Lookup getValue (registrations addRoute newNode New exampleRoutes) ''GET'' ''/files/*filepath''
     = Inr (Some 5, [\<lparr>Key = ''filepath'', Value = ''/*filepath''\<rparr>], False) \<and>
   Lookup getValue (registrations addRoute newNode New exampleRoutes) ''GET'' ''/files/a/b.txt''
     = Inr (Some 5, [\<lparr>Key = ''filepath'', Value = ''/a/b.txt''\<rparr>], False)"
proof -
  have nc: "nonConflicting addRoute newNode New exampleRoutes" by code_simp
  have p: "(''GET'', ''/user/:id/profile'', 2) \<in> set exampleRoutes"
    and f: "(''GET'', ''/files/*filepath'', 5) \<in> set exampleRoutes"
    by (simp_all add: exampleRoutes_def)
  have l: "literalSegments ''/user/:id/profile'' = [\<lparr>Key = ''id'', Value = '':id''\<rparr>]"
    "literalSegments ''/files/*filepath'' = [\<lparr>Key = ''filepath'', Value = ''/*filepath''\<rparr>]"
    by code_simp+
  have m: "matchRoute ''/user/:id/profile'' ''/user/42/profile'' = Some [\<lparr>Key = ''id'', Value = ''42''\<rparr>]"
    "matchRoute ''/files/*filepath'' ''/files/a/b.txt'' = Some [\<lparr>Key = ''filepath'', Value = ''/a/b.txt''\<rparr>]"
    by code_simp+
  from Lookup_after_Handle [OF nc p] Lookup_after_Handle [OF nc f] l m show ?thesis
    by simp
qed

end
